theory Spec2Isabelle
  imports Complex_Main
begin

text \<open>
  Embedding of src/prog.ts. A JavaScript string is modelled by the list of bytes of its
  UTF-8 encoding; the characters the program inspects (\<open>/\<close>, \<open>.\<close>, \<open>%\<close>, hexadecimal
  digits, line terminators) are found the same way in both representations.
\<close>

text \<open>
  The exceptions of the model: a rejected network request, the \<open>URIError\<close> of
  \<open>decodeURI\<close>, and a rejected upload.
\<close>

datatype error = RequestError | URIError | UploadError

section \<open>Library functions used by the program\<close>

subsection \<open>\<open>path.basename\<close> and \<open>path.extname\<close> (POSIX flavour)\<close>

text \<open>
  \<open>path.basename(p)\<close>: trailing slashes are ignored, the result is the last segment.
\<close>

definition basename :: "string \<Rightarrow> string" where
  "basename p =
     rev (takeWhile (\<lambda>c. c \<noteq> CHR ''/'') (dropWhile (\<lambda>c. c = CHR ''/'') (rev p)))"

text \<open>
  \<open>path.extname(p)\<close>: from the last \<open>.\<close> of the last segment to its end; empty when
  there is no \<open>.\<close>, when the last \<open>.\<close> is the first character of the segment, and for
  the segment \<open>..\<close>.
\<close>

definition extname :: "string \<Rightarrow> string" where
  "extname p =
     (let b = basename p;
          after = takeWhile (\<lambda>c. c \<noteq> CHR ''.'') (rev b)
      in case dropWhile (\<lambda>c. c \<noteq> CHR ''.'') (rev b) of
           [] \<Rightarrow> []
         | d # stem \<Rightarrow>
             if stem = [] then []
             else if b = ''..'' then []
             else rev (after @ [d]))"

subsection \<open>\<open>decodeURI\<close>\<close>

definition hexval :: "char \<Rightarrow> nat option" where
  "hexval c =
     (let n = of_char c :: nat in
      if 48 \<le> n \<and> n \<le> 57 then Some (n - 48)
      else if 65 \<le> n \<and> n \<le> 70 then Some (n - 55)
      else if 97 \<le> n \<and> n \<le> 102 then Some (n - 87)
      else None)"

text \<open>One escape \<open>%XX\<close> at the head of a string: its value and the rest.\<close>

fun escape :: "string \<Rightarrow> (nat \<times> string) option" where
  "escape (p # h1 # h2 # rest) =
     (if p = CHR ''%'' then
        (case (hexval h1, hexval h2) of
           (Some a, Some b) \<Rightarrow> Some (16 * a + b, rest)
         | _ \<Rightarrow> None)
      else None)"
| "escape _ = None"

fun escapes :: "nat \<Rightarrow> string \<Rightarrow> (nat list \<times> string) option" where
  "escapes 0 s = Some ([], s)"
| "escapes (Suc n) s =
     (case escape s of
        None \<Rightarrow> None
      | Some (b, rest) \<Rightarrow>
          (case escapes n rest of
             None \<Rightarrow> None
           | Some (bs, rest') \<Rightarrow> Some (b # bs, rest')))"

definition continuation :: "nat \<Rightarrow> bool" where
  "continuation b \<longleftrightarrow> 128 \<le> b \<and> b \<le> 191"

text \<open>The well-formed UTF-8 sequences of two, three and four bytes.\<close>

fun utf8_valid :: "nat list \<Rightarrow> bool" where
  "utf8_valid [b0, b1] \<longleftrightarrow> 194 \<le> b0 \<and> b0 \<le> 223 \<and> continuation b1"
| "utf8_valid [b0, b1, b2] \<longleftrightarrow>
     224 \<le> b0 \<and> b0 \<le> 239 \<and> continuation b1 \<and> continuation b2 \<and>
     (if b0 = 224 then 160 \<le> b1 else if b0 = 237 then b1 \<le> 159 else True)"
| "utf8_valid [b0, b1, b2, b3] \<longleftrightarrow>
     240 \<le> b0 \<and> b0 \<le> 244 \<and> continuation b1 \<and> continuation b2 \<and> continuation b3 \<and>
     (if b0 = 240 then 144 \<le> b1 else if b0 = 244 then b1 \<le> 143 else True)"
| "utf8_valid _ \<longleftrightarrow> False"

definition leading_ones :: "nat \<Rightarrow> nat" where
  "leading_ones b =
     (if b < 128 then 0 else if b < 192 then 1 else if b < 224 then 2
      else if b < 240 then 3 else if b < 248 then 4 else 5)"

definition uriReserved :: string where
  "uriReserved = '';/?:@&=+$,#''"

lemma escape_shorter: "escape s = Some (b, rest) \<Longrightarrow> length rest < length s"
  by (induction s rule: escape.induct) (auto split: if_splits option.splits)

lemma escapes_shorter: "escapes n s = Some (bs, rest) \<Longrightarrow> length rest \<le> length s"
proof (induction n arbitrary: s bs rest)
  case 0
  then show ?case by simp
next
  case (Suc n)
  then show ?case
    by (fastforce split: option.splits dest: escape_shorter)
qed

text \<open>
  \<open>decodeURI(s)\<close>; \<open>None\<close> is the \<open>URIError\<close> it throws. An escape of an ASCII character
  is replaced by the character unless that is reserved (then the escape stays as
  written); escapes of a multi-byte character must form one well-formed UTF-8 sequence
  and are replaced by that character. Everything else throws.
\<close>

function decodeURI :: "string \<Rightarrow> string option" where
  "decodeURI [] = Some []"
| "decodeURI (c # cs) =
     (if c \<noteq> CHR ''%'' then map_option ((#) c) (decodeURI cs)
      else
        (case escape (c # cs) of
           None \<Rightarrow> None
         | Some (b, rest) \<Rightarrow>
             if leading_ones b = 0 then
               (if char_of b \<in> set uriReserved
                then map_option ((@) (take 3 (c # cs))) (decodeURI rest)
                else map_option ((#) (char_of b)) (decodeURI rest))
             else if leading_ones b = 1 \<or> 4 < leading_ones b then None
             else
               (case escapes (leading_ones b - 1) rest of
                  None \<Rightarrow> None
                | Some (bs, rest') \<Rightarrow>
                    if utf8_valid (b # bs)
                    then map_option ((@) (map char_of (b # bs))) (decodeURI rest')
                    else None)))"
  by pat_completeness auto
termination
  by (relation "measure length") (auto dest!: escape_shorter escapes_shorter)

subsection \<open>The regular expression \<open>/.+\.pdf$/\<close>\<close>

text \<open>
  Whether a string ends with a line terminator (LF, CR, U+2028 or U+2029): the
  characters that \<open>.\<close> does not match.
\<close>

definition ends_with_line_terminator :: "string \<Rightarrow> bool" where
  "ends_with_line_terminator s =
     (case rev s of
        [] \<Rightarrow> False
      | c # r \<Rightarrow>
          c = CHR 0x0A \<or> c = CHR 0x0D \<or>
          ((c = CHR 0xA8 \<or> c = CHR 0xA9) \<and> take 2 r = [CHR 0x80, CHR 0xE2]))"

text \<open>
  \<open>m.match(/.+\.pdf$/) !== null\<close>: the string ends with \<open>.pdf\<close> and the character
  before that exists and can be matched by \<open>.\<close>.
\<close>

definition pdf_match :: "string \<Rightarrow> bool" where
  "pdf_match m =
     (5 \<le> length m \<and> drop (length m - 4) m = ''.pdf'' \<and>
      \<not> ends_with_line_terminator (take (length m - 4) m))"

section \<open>Link extraction: \<open>getLinks\<close>\<close>

text \<open>
  An element of the parsed page: its tag name (lower case), its \<open>id\<close> (empty when it
  has none), its classes, the value of its \<open>href\<close> property (for an anchor: the
  resolved URL, empty when it has none) and its children.
\<close>

datatype element =
  Element (tagName: string) (elem_id: string) (classNames: "string list") (href: string)
    (children: "element list")

text \<open>All descendants of an element in document order, the element itself excluded.\<close>

fun descendants :: "element \<Rightarrow> element list" where
  "descendants (Element t i c h ch) = concat (map (\<lambda>e. e # descendants e) ch)"

definition getElementsByClassName :: "string \<Rightarrow> element \<Rightarrow> element list" where
  "getElementsByClassName c node = filter (\<lambda>e. c \<in> set (classNames e)) (descendants node)"

definition getElementsByTagName :: "string \<Rightarrow> element \<Rightarrow> element list" where
  "getElementsByTagName t node = filter (\<lambda>e. tagName e = t) (descendants node)"

text \<open>The two fields that \<open>getLinks\<close> reads from the result of \<open>url.parse\<close>.\<close>

record url_parsed =
  url_path :: "string option"
  url_href :: "string option"

text \<open>\<open>!x\<close> for a value that is a string, \<open>null\<close> or \<open>undefined\<close>.\<close>

definition falsy :: "string option \<Rightarrow> bool" where
  "falsy x \<longleftrightarrow> x = None \<or> x = Some []"

record ProgrammerMagazineLink =
  link_id :: string
  url :: string
  filename :: string

text \<open>
  What the program takes from its environment: \<open>path.join\<close>, \<open>__dirname\<close>, whether
  \<open>fs.access\<close> resolves for a path (it rejects otherwise, and the \<open>catch\<close> block of
  \<open>scrape\<close> lets the loop go on), \<open>url.parse\<close>, and the outcome of
  \<open>getMyMagazinesDom\<close> (the login request and the parsed page, the document node as an
  element).
\<close>

record node =
  path_join :: "string \<Rightarrow> string \<Rightarrow> string"
  dirname :: string
  fs_access :: "string \<Rightarrow> bool"
  url_parse :: "string \<Rightarrow> url_parsed"
  getMyMagazinesDom :: "error + element"

definition getMagazinesSections :: "element \<Rightarrow> element list" where
  "getMagazinesSections document = getElementsByClassName ''section-magazine'' document"

definition getMagazineLinksTable :: "element \<Rightarrow> element list" where
  "getMagazineLinksTable section = getElementsByClassName ''borderless'' section"

definition getMagazineLinks :: "element \<Rightarrow> element list" where
  "getMagazineLinks table = getElementsByTagName ''a'' table"

text \<open>
  The body of the inner loop for one anchor: \<open>Inr None\<close> is \<open>continue\<close>,
  \<open>Inr (Some l)\<close> is \<open>results.push(l)\<close>, \<open>Inl\<close> is an exception.
\<close>

definition getLinks_format :: "node \<Rightarrow> string \<Rightarrow> element \<Rightarrow> error + ProgrammerMagazineLink option" where
  "getLinks_format nd sid format =
     (let urlParsed = url_parse nd (href format) in
      if falsy (url_path urlParsed) \<or> falsy (url_href urlParsed) then Inr None
      else
        (case (url_path urlParsed, url_href urlParsed) of
           (Some p, Some h) \<Rightarrow>
             if extname p = [] then Inr None
             else
               (case decodeURI (basename p) of
                  None \<Rightarrow> Inl URIError
                | Some f \<Rightarrow> Inr (Some \<lparr>link_id = sid, url = h, filename = f\<rparr>))
         | _ \<Rightarrow> Inr None))"

fun getLinks_formats ::
  "node \<Rightarrow> string \<Rightarrow> element list \<Rightarrow> ProgrammerMagazineLink list \<Rightarrow>
     error + ProgrammerMagazineLink list" where
  "getLinks_formats nd sid [] results = Inr results"
| "getLinks_formats nd sid (format # formats) results =
     (case getLinks_format nd sid format of
        Inl e \<Rightarrow> Inl e
      | Inr None \<Rightarrow> getLinks_formats nd sid formats results
      | Inr (Some l) \<Rightarrow> getLinks_formats nd sid formats (results @ [l]))"

fun getLinks_sections ::
  "node \<Rightarrow> element list \<Rightarrow> ProgrammerMagazineLink list \<Rightarrow> error + ProgrammerMagazineLink list" where
  "getLinks_sections nd [] results = Inr results"
| "getLinks_sections nd (section # sections) results =
     (if elem_id section = [] then getLinks_sections nd sections results
      else
        (case getMagazineLinksTable section of
           [] \<Rightarrow> getLinks_sections nd sections results
         | linksTable # _ \<Rightarrow>
             (case getLinks_formats nd (elem_id section) (getMagazineLinks linksTable) results of
                Inl e \<Rightarrow> Inl e
              | Inr results' \<Rightarrow> getLinks_sections nd sections results')))"

definition getLinks :: "node \<Rightarrow> error + ProgrammerMagazineLink list" where
  "getLinks nd =
     (case getMyMagazinesDom nd of
        Inl e \<Rightarrow> Inl e
      | Inr document \<Rightarrow> getLinks_sections nd (getMagazinesSections document) [])"

section \<open>The download scheduler of \<open>ProgrammerMagazineScraper\<close>\<close>

text \<open>
  A download action is the closure returned by \<open>scraperFactory(uri, folder, filename)\<close>;
  it is determined by the three captured strings. An entry of \<open>requestsList\<close> is the
  object \<open>{ started, scrape }\<close>.
\<close>

datatype action = Scraper (uri: string) (folder: string) (dest: string)

record request =
  started :: bool
  scrape :: action

text \<open>
  A JavaScript number, as far as comparisons see it: a finite value (every finite
  double is a rational), an infinity, or \<open>NaN\<close>. The setter \<open>maxRequests\<close> takes any
  number.
\<close>

datatype number = Finite rat | PosInfinity | NegInfinity | NaN

text \<open>\<open>r >= m\<close> for an integer \<open>r\<close> and a number \<open>m\<close>; every comparison with \<open>NaN\<close> is false.\<close>

fun ge_number :: "int \<Rightarrow> number \<Rightarrow> bool" where
  "ge_number r (Finite q) = (q \<le> of_int r)"
| "ge_number r PosInfinity = False"
| "ge_number r NegInfinity = True"
| "ge_number r NaN = False"

text \<open>
  \<open>allRequestsCompleted\<close> holds either the no-op closure installed by \<open>scrapeInit\<close>
  or the \<open>resolve\<close> function of the promise that \<open>scrape\<close> awaits.
\<close>

datatype callback = Noop | Resolve

text \<open>
  The fields of the class that the scheduler reads and writes, followed by four fields
  that belong to the event loop and not to the object: \<open>resolves\<close> counts the calls of
  the promise's \<open>resolve\<close> function, \<open>launched\<close> lists the positions in \<open>requestsList\<close>
  whose \<open>scrape()\<close> has been called (in call order), \<open>inflight\<close> lists the actions
  that were called and have not yet run their \<open>finally\<close> block, and \<open>finished\<close> lists
  those that have. The two counters start at 0 and change by 1, so they are integers;
  the cap is any number.
\<close>

record scraper =
  maxRequests :: number
  runningRequests :: int
  completedRequests :: int
  requestsList :: "request list"
  allRequestsCompleted :: callback
  newMagazines :: "string list"
  resolves :: nat
  launched :: "nat list"
  inflight :: "nat list"
  finished :: "nat list"

definition scraperFactory :: "string \<Rightarrow> string \<Rightarrow> string \<Rightarrow> action" where
  "scraperFactory u d f = Scraper u d f"

text \<open>
  \<open>scrapeInit\<close> resets the counters, the list, the callback and the result list. A run
  starts with no action of an earlier run pending, so the event-loop fields start empty.
\<close>

definition scrapeInit :: "scraper \<Rightarrow> scraper" where
  "scrapeInit s = s\<lparr>runningRequests := 0, completedRequests := 0, requestsList := [],
     allRequestsCompleted := Noop, newMagazines := [],
     resolves := 0, launched := [], inflight := [], finished := []\<rparr>"

text \<open>
  The \<open>for (const req of this.requestsList)\<close> loop of \<open>startNext\<close>, from position \<open>i\<close>.
  The first component of the result says whether the loop left through \<open>return\<close>
  (which also skips the completion check after the loop). Calling \<open>req.scrape()\<close> runs
  the action up to its first \<open>await\<close> (the network request), which only logs; the
  action is then pending.
\<close>

function startNext_from :: "nat \<Rightarrow> scraper \<Rightarrow> bool \<times> scraper" where
  "startNext_from i s =
     (if i < length (requestsList s) then
        (if ge_number (runningRequests s) (maxRequests s) then (True, s)
         else if started (requestsList s ! i) then startNext_from (Suc i) s
         else startNext_from (Suc i)
           (s\<lparr>requestsList := (requestsList s)[i := (requestsList s ! i)\<lparr>started := True\<rparr>],
              launched := launched s @ [i],
              inflight := inflight s @ [i],
              runningRequests := runningRequests s + 1\<rparr>))
      else (False, s))"
  by pat_completeness auto
termination
  by (relation "measure (\<lambda>(i, s). length (requestsList s) - i)") auto

declare startNext_from.simps [simp del]

definition allRequestsCompleted_call :: "scraper \<Rightarrow> scraper" where
  "allRequestsCompleted_call s =
     (case allRequestsCompleted s of
        Noop \<Rightarrow> s
      | Resolve \<Rightarrow> s\<lparr>resolves := resolves s + 1\<rparr>)"

definition startNext :: "scraper \<Rightarrow> scraper" where
  "startNext s =
     (case startNext_from 0 s of
        (True, s') \<Rightarrow> s'
      | (False, s') \<Rightarrow>
          if int (length (requestsList s')) \<le> completedRequests s'
          then allRequestsCompleted_call s' else s')"

text \<open>
  The continuation of the pending action at position \<open>i\<close> after its last \<open>await\<close>:
  with \<open>ok\<close> the request, \<open>mkdir\<close> and \<open>writeFile\<close> all succeeded and the destination
  is pushed on \<open>newMagazines\<close>; without it one of them threw and the \<open>catch\<close> block only
  logs. The \<open>finally\<close> block runs in both cases: \<open>settle\<close> is the state after its two
  counter updates, \<open>finish\<close> the state after its call of \<open>startNext\<close>.
\<close>

definition settle :: "nat \<Rightarrow> bool \<Rightarrow> scraper \<Rightarrow> scraper" where
  "settle i ok s =
     s\<lparr>newMagazines :=
         (if ok then newMagazines s @ [dest (scrape (requestsList s ! i))]
          else newMagazines s),
       runningRequests := runningRequests s - 1,
       completedRequests := completedRequests s + 1,
       inflight := remove1 i (inflight s),
       finished := finished s @ [i]\<rparr>"

definition finish :: "nat \<Rightarrow> bool \<Rightarrow> scraper \<Rightarrow> scraper" where
  "finish i ok s = startNext (settle i ok s)"

text \<open>
  A run of the event loop: a sequence of completions \<open>(i, ok)\<close>, each of an action that
  is pending at that moment. \<open>None\<close> when the sequence names an action that is not
  pending. While a run lasts the cap is not changed and \<open>scrape\<close> is not called again.
\<close>

fun run :: "scraper \<Rightarrow> (nat \<times> bool) list \<Rightarrow> scraper option" where
  "run s [] = Some s"
| "run s ((i, ok) # es) = (if i \<in> set (inflight s) then run (finish i ok s) es else None)"

subsection \<open>Enrolment: the loop of \<open>scrape\<close> over the discovered links\<close>

definition baseFolder :: "node \<Rightarrow> string \<Rightarrow> string" where
  "baseFolder nd directory =
     (if directory \<noteq> [] then directory else path_join nd (dirname nd) ''programista'')"

definition magazinefolder :: "node \<Rightarrow> string \<Rightarrow> ProgrammerMagazineLink \<Rightarrow> string" where
  "magazinefolder nd directory l = path_join nd (baseFolder nd directory) (link_id l)"

definition destination :: "node \<Rightarrow> string \<Rightarrow> ProgrammerMagazineLink \<Rightarrow> string" where
  "destination nd directory l = path_join nd (magazinefolder nd directory l) (filename l)"

fun enroll :: "node \<Rightarrow> string \<Rightarrow> bool \<Rightarrow> ProgrammerMagazineLink list \<Rightarrow> scraper \<Rightarrow> scraper" where
  "enroll nd directory skipExisting [] s = s"
| "enroll nd directory skipExisting (l # ls) s =
     (if skipExisting \<and> fs_access nd (destination nd directory l)
      then enroll nd directory skipExisting ls s
      else enroll nd directory skipExisting ls
        (s\<lparr>requestsList := requestsList s @
            [\<lparr>started = False,
              scrape = scraperFactory (url l) (magazinefolder nd directory l)
                         (destination nd directory l)\<rparr>]\<rparr>))"

text \<open>
  The part of \<open>scrape\<close> after \<open>await this.getLinks()\<close>: the enrolment loop, the promise
  whose \<open>resolve\<close> is stored in \<open>allRequestsCompleted\<close>, and the first \<open>startNext\<close>.
\<close>

definition scrape_links ::
  "node \<Rightarrow> string \<Rightarrow> bool \<Rightarrow> ProgrammerMagazineLink list \<Rightarrow> scraper \<Rightarrow> scraper" where
  "scrape_links nd directory skipExisting links s =
     startNext ((enroll nd directory skipExisting links s)\<lparr>allRequestsCompleted := Resolve\<rparr>)"

text \<open>
  The method \<open>scrape(directory, skipExisting)\<close> up to its first \<open>startNext\<close> (the field
  \<open>scrape\<close> of a request has taken the plain name); \<open>Inl\<close> when
  \<open>getLinks\<close> throws, which rejects the promise of \<open>scrape\<close> before any task is enrolled.
\<close>

definition scraper_scrape :: "node \<Rightarrow> string \<Rightarrow> bool \<Rightarrow> scraper \<Rightarrow> error + scraper" where
  "scraper_scrape nd directory skipExisting s =
     (case getLinks nd of
        Inl e \<Rightarrow> Inl e
      | Inr links \<Rightarrow> Inr (scrape_links nd directory skipExisting links (scrapeInit s)))"

text \<open>What \<open>await waitAllPromises; return this.newMagazines\<close> yields, once resolved.\<close>

definition scrape_result :: "scraper \<Rightarrow> string list option" where
  "scrape_result s = (if 0 < resolves s then Some (newMagazines s) else None)"

section \<open>The notifier: \<open>uploadNewMagazines\<close>\<close>

text \<open>The arguments of one call of \<open>web.files.upload\<close>.\<close>

record upload =
  upload_filename :: string
  upload_file :: string
  upload_channels :: string

text \<open>
  The \<open>for\<close> loop over \<open>pdfMagazines\<close>. \<open>ok k\<close> says whether the promise of the call
  number \<open>k\<close> (from 0) of \<open>web.files.upload\<close> resolves; when it rejects, the \<open>await\<close>
  throws and the loop ends. The result is the list of calls made and the exception, if
  any.
\<close>

fun upload_loop ::
  "(nat \<Rightarrow> bool) \<Rightarrow> string \<Rightarrow> string list \<Rightarrow> upload list \<Rightarrow> upload list \<times> error option" where
  "upload_loop ok slackChannels [] calls = (calls, None)"
| "upload_loop ok slackChannels (file # files) calls =
     (let call = \<lparr>upload_filename = basename file, upload_file = file,
                  upload_channels = slackChannels\<rparr>
      in if ok (length calls) then upload_loop ok slackChannels files (calls @ [call])
         else (calls @ [call], Some UploadError))"

definition uploadNewMagazines ::
  "(nat \<Rightarrow> bool) \<Rightarrow> string \<Rightarrow> string \<Rightarrow> string list \<Rightarrow> upload list \<times> error option" where
  "uploadNewMagazines ok slackToken slackChannels magazines =
     (let pdfMagazines = filter pdf_match magazines in
      if length pdfMagazines = 0 then ([], None)
      else upload_loop ok slackChannels pdfMagazines [])"

section \<open>Definitions used in the statements and proofs\<close>

subsection \<open>Invariants of the scheduler\<close>

definition pending_tasks :: "scraper \<Rightarrow> nat set" where
  "pending_tasks s =
     {i. i < length (requestsList s) \<and> started (requestsList s ! i) \<and> i \<notin> set (finished s)}"

definition sched_inv :: "scraper \<Rightarrow> bool" where
  "sched_inv s \<longleftrightarrow>
     runningRequests s = int (length (inflight s)) \<and>
     completedRequests s = int (length (finished s)) \<and>
     distinct (launched s) \<and>
     set (launched s) = {i. i < length (requestsList s) \<and> started (requestsList s ! i)} \<and>
     distinct (inflight s) \<and> distinct (finished s) \<and>
     set (inflight s) \<inter> set (finished s) = {} \<and>
     set (inflight s) \<union> set (finished s) = set (launched s) \<and>
     (runningRequests s = 0 \<or> \<not> ge_number (runningRequests s - 1) (maxRequests s)) \<and>
     (launched s = [] \<or> \<not> ge_number 0 (maxRequests s))"

definition run_inv :: "scraper \<Rightarrow> bool" where
  "run_inv s \<longleftrightarrow>
     sched_inv s \<and> allRequestsCompleted s = Resolve \<and>
     resolves s = (if length (finished s) = length (requestsList s) then 1 else 0) \<and>
     (ge_number (runningRequests s) (maxRequests s) \<or>
      (\<forall>j < length (requestsList s). started (requestsList s ! j)))"

definition fresh :: "scraper \<Rightarrow> bool" where
  "fresh s \<longleftrightarrow>
     runningRequests s = 0 \<and> completedRequests s = 0 \<and>
     list_all (\<lambda>r. \<not> started r) (requestsList s) \<and>
     launched s = [] \<and> inflight s = [] \<and> finished s = [] \<and>
     resolves s = 0 \<and> newMagazines s = []"

subsection \<open>Provenance of a link, and the arguments of an upload call\<close>

text \<open>
  Where a link comes from: a section with a non-empty id, an anchor below the first
  element of class \<open>borderless\<close> of that section, and the loop body pushing the link
  for that anchor.
\<close>

definition link_source :: "node \<Rightarrow> element \<Rightarrow> ProgrammerMagazineLink \<Rightarrow> bool" where
  "link_source nd section l \<longleftrightarrow>
     elem_id section \<noteq> [] \<and>
     (case getMagazineLinksTable section of
        [] \<Rightarrow> False
      | t # ts \<Rightarrow>
          list_ex (\<lambda>a. getLinks_format nd (elem_id section) a = Inr (Some l))
            (getMagazineLinks t))"

definition upload_of :: "string \<Rightarrow> string \<Rightarrow> upload" where
  "upload_of slackChannels file =
     \<lparr>upload_filename = basename file, upload_file = file, upload_channels = slackChannels\<rparr>"

subsection \<open>Concrete inputs for the examples\<close>

text \<open>
  For the examples: what \<open>url.parse\<close> returns on an absolute \<open>https\<close> URL with a host and
  a path (the path with the query, without the fragment; the URL itself as \<open>href\<close>), and
  \<open>path.join\<close> on segments that need no normalisation.
\<close>

definition url_parse0 :: "string \<Rightarrow> url_parsed" where
  "url_parse0 u =
     (if u = [] then \<lparr>url_path = None, url_href = Some []\<rparr>
      else \<lparr>url_path =
              Some (takeWhile (\<lambda>c. c \<noteq> CHR ''#'') (dropWhile (\<lambda>c. c \<noteq> CHR ''/'') (drop 8 u))),
            url_href = Some u\<rparr>)"

definition anchor :: "string \<Rightarrow> element" where
  "anchor u = Element ''a'' [] [] u []"

text \<open>A document with the given content of its \<open>body\<close>.\<close>

definition document_of :: "element list \<Rightarrow> element" where
  "document_of content =
     Element ''#document'' [] [] []
       [Element ''html'' [] [] [] [Element ''head'' [] [] [] [], Element ''body'' [] [] [] content]]"

text \<open>A table with one row and one cell.\<close>

definition table_of :: "string list \<Rightarrow> string list \<Rightarrow> element list \<Rightarrow> element" where
  "table_of table_classes cell_classes content =
     Element ''table'' [] table_classes []
       [Element ''tbody'' [] [] []
          [Element ''tr'' [] [] [] [Element ''td'' [] cell_classes [] content]]]"

text \<open>
  A section with two matching tables (the first with an anchor to a file and one to a
  target without extension), and a section without id.
\<close>

definition page0 :: element where
  "page0 =
     document_of
       [Element ''div'' ''2020-01'' [''section-magazine''] []
          [table_of [''table'', ''borderless''] []
             [anchor ''https://example.com/issue/2020-01.pdf'',
              anchor ''https://example.com/issue/2020-01''],
           table_of [''borderless''] []
             [anchor ''https://example.com/issue/2020-01.epub'']],
        Element ''div'' [] [''section-magazine''] []
          [table_of [''borderless''] []
             [anchor ''https://example.com/issue/none.pdf'']]]"


text \<open>A section that lists the same file twice.\<close>

definition page_twice :: element where
  "page_twice =
     document_of
       [Element ''div'' ''2020-01'' [''section-magazine''] []
          [table_of [''borderless''] []
             [anchor ''https://example.com/issue/2020-01.pdf'',
              anchor ''https://example.com/issue/2020-01.pdf'']]]"

text \<open>
  A section with anchors whose URLs have a query: one with an extension only in the
  query, one with an extension before the query.
\<close>

definition page_query :: element where
  "page_query =
     document_of
       [Element ''div'' ''2020-01'' [''section-magazine''] []
          [table_of [''borderless''] []
             [anchor ''https://example.com/issue/2020-01?v=1.2'',
              anchor ''https://example.com/issue/a.pdf?v=1'']]]"

text \<open>A section with an anchor whose file name is escaped in Latin-1, not in UTF-8.\<close>

definition page_latin1 :: element where
  "page_latin1 =
     document_of
       [Element ''div'' ''2020-01'' [''section-magazine''] []
          [table_of [''borderless''] []
             [anchor ''https://example.com/issue/2020-01.pdf'',
              anchor ''https://example.com/issue/caf%E9.pdf'']]]"

definition node0 :: node where
  "node0 = \<lparr>path_join = (\<lambda>a b. a @ ''/'' @ b), dirname = ''/app'',
            fs_access = (\<lambda>p. p = ''/data/2020-02/b.pdf''),
            url_parse = url_parse0, getMyMagazinesDom = Inr page0\<rparr>"

definition node1 :: node where
  "node1 = node0\<lparr>fs_access := (\<lambda>p. p = ''/data/2020-01/2020-01.pdf'')\<rparr>"

definition links0 :: "ProgrammerMagazineLink list" where
  "links0 =
     [\<lparr>link_id = ''2020-01'', url = ''https://example.com/issue/a.pdf'', filename = ''a.pdf''\<rparr>,
      \<lparr>link_id = ''2020-02'', url = ''https://example.com/issue/b.pdf'', filename = ''b.pdf''\<rparr>,
      \<lparr>link_id = ''2020-03'', url = ''https://example.com/issue/c.pdf'', filename = ''c.pdf''\<rparr>,
      \<lparr>link_id = ''2020-03'', url = ''https://example.com/issue/c.epub'', filename = ''c.epub''\<rparr>]"

definition links5 :: "ProgrammerMagazineLink list" where
  "links5 =
     [\<lparr>link_id = ''i1'', url = ''https://example.com/1.pdf'', filename = ''1.pdf''\<rparr>,
      \<lparr>link_id = ''i2'', url = ''https://example.com/2.pdf'', filename = ''2.pdf''\<rparr>,
      \<lparr>link_id = ''i3'', url = ''https://example.com/3.pdf'', filename = ''3.pdf''\<rparr>,
      \<lparr>link_id = ''i4'', url = ''https://example.com/4.pdf'', filename = ''4.pdf''\<rparr>,
      \<lparr>link_id = ''i5'', url = ''https://example.com/5.pdf'', filename = ''5.pdf''\<rparr>]"

definition scraper0 :: scraper where
  "scraper0 = \<lparr>maxRequests = Finite 2, runningRequests = 0, completedRequests = 0,
      requestsList = [], allRequestsCompleted = Noop, newMagazines = [],
      resolves = 0, launched = [], inflight = [], finished = []\<rparr>"

section \<open>Lemmas about the scheduler\<close>

lemma ge_number_mono: "ge_number r m \<Longrightarrow> r \<le> r' \<Longrightarrow> ge_number r' m"
  by (cases m) (auto intro: order_trans)

lemma startNext_from_frame:
  "maxRequests (snd (startNext_from i s)) = maxRequests s \<and>
   completedRequests (snd (startNext_from i s)) = completedRequests s \<and>
   allRequestsCompleted (snd (startNext_from i s)) = allRequestsCompleted s \<and>
   newMagazines (snd (startNext_from i s)) = newMagazines s \<and>
   resolves (snd (startNext_from i s)) = resolves s \<and>
   finished (snd (startNext_from i s)) = finished s \<and>
   length (requestsList (snd (startNext_from i s))) = length (requestsList s) \<and>
   map scrape (requestsList (snd (startNext_from i s))) = map scrape (requestsList s)"
proof (induction i s rule: startNext_from.induct)
  case (1 i s)
  show ?case
  proof (cases "i < length (requestsList s)")
    case False
    then show ?thesis by (simp add: startNext_from.simps [of i s])
  next
    case inb: True
    show ?thesis
    proof (cases "ge_number (runningRequests s) (maxRequests s)")
      case True
      with inb show ?thesis by (simp add: startNext_from.simps [of i s])
    next
      case cap: False
      show ?thesis
      proof (cases "started (requestsList s ! i)")
        case True
        with inb cap "1.IH"(1) show ?thesis by (simp add: startNext_from.simps [of i s])
      next
        case False
        from inb have "(map scrape (requestsList s))[i := scrape (requestsList s ! i)] =
            map scrape (requestsList s)"
          by (simp add: list_update_same_conv)
        with False inb cap "1.IH"(2) show ?thesis
          by (simp add: startNext_from.simps [of i s] map_update)
      qed
    qed
  qed
qed

lemma startNext_from_inv:
  "sched_inv s \<Longrightarrow> sched_inv (snd (startNext_from i s))"
proof (induction i s rule: startNext_from.induct)
  case (1 i s)
  show ?case
  proof (cases "i < length (requestsList s)")
    case False
    with "1.prems" show ?thesis by (simp add: startNext_from.simps [of i s])
  next
    case inb: True
    show ?thesis
    proof (cases "ge_number (runningRequests s) (maxRequests s)")
      case True
      with inb "1.prems" show ?thesis by (simp add: startNext_from.simps [of i s])
    next
      case cap: False
      show ?thesis
      proof (cases "started (requestsList s ! i)")
        case True
        with inb cap "1.IH"(1) "1.prems" show ?thesis
          by (simp add: startNext_from.simps [of i s])
      next
        case ns: False
        let ?s' = "s\<lparr>requestsList := (requestsList s)[i := (requestsList s ! i)\<lparr>started := True\<rparr>],
              launched := launched s @ [i],
              inflight := inflight s @ [i],
              runningRequests := runningRequests s + 1\<rparr>"
        from "1.prems" have L: "set (launched s) =
            {j. j < length (requestsList s) \<and> started (requestsList s ! j)}"
          and U: "set (inflight s) \<union> set (finished s) = set (launched s)"
          by (simp_all add: sched_inv_def)
        from L ns have nl: "i \<notin> set (launched s)" by simp
        with U have ni: "i \<notin> set (inflight s)" and nf: "i \<notin> set (finished s)" by auto
        have L': "set (launched ?s') =
            {j. j < length (requestsList ?s') \<and> started (requestsList ?s' ! j)}"
          using L inb by (auto simp: nth_list_update)
        from "1.prems" have "0 \<le> runningRequests s" by (simp add: sched_inv_def)
        with cap have Z: "\<not> ge_number 0 (maxRequests s)"
          using ge_number_mono [of 0 "maxRequests s" "runningRequests s"] by auto
        have "sched_inv ?s'"
          unfolding sched_inv_def
        proof (intro conjI)
          show "set (launched ?s') =
            {j. j < length (requestsList ?s') \<and> started (requestsList ?s' ! j)}"
            by (rule L')
        qed (use "1.prems" cap Z nl ni nf U in \<open>auto simp: sched_inv_def\<close>)
        with inb cap ns "1.IH"(2) show ?thesis
          by (simp add: startNext_from.simps [of i s])
      qed
    qed
  qed
qed

lemma startNext_from_early:
  "fst (startNext_from i s) \<Longrightarrow>
     ge_number (runningRequests (snd (startNext_from i s))) (maxRequests s)"
proof (induction i s rule: startNext_from.induct)
  case (1 i s)
  show ?case
  proof (cases "i < length (requestsList s)")
    case False
    with "1.prems" show ?thesis by (simp add: startNext_from.simps [of i s])
  next
    case inb: True
    show ?thesis
    proof (cases "ge_number (runningRequests s) (maxRequests s)")
      case True
      with inb show ?thesis by (simp add: startNext_from.simps [of i s])
    next
      case cap: False
      show ?thesis
      proof (cases "started (requestsList s ! i)")
        case True
        with inb cap "1.IH"(1) "1.prems" show ?thesis
          by (simp add: startNext_from.simps [of i s])
      next
        case False
        with inb cap "1.IH"(2) "1.prems" show ?thesis
          by (simp add: startNext_from.simps [of i s])
      qed
    qed
  qed
qed

lemma startNext_from_all:
  "\<not> fst (startNext_from i s) \<Longrightarrow>
     (\<forall>j < i. j < length (requestsList s) \<longrightarrow> started (requestsList s ! j)) \<Longrightarrow>
     (\<forall>j < length (requestsList s). started (requestsList (snd (startNext_from i s)) ! j))"
proof (induction i s rule: startNext_from.induct)
  case (1 i s)
  show ?case
  proof (cases "i < length (requestsList s)")
    case False
    with "1.prems" show ?thesis by (simp add: startNext_from.simps [of i s])
  next
    case inb: True
    show ?thesis
    proof (cases "ge_number (runningRequests s) (maxRequests s)")
      case True
      with inb "1.prems" show ?thesis by (simp add: startNext_from.simps [of i s])
    next
      case cap: False
      show ?thesis
      proof (cases "started (requestsList s ! i)")
        case True
        have "\<forall>j < Suc i. j < length (requestsList s) \<longrightarrow> started (requestsList s ! j)"
          using "1.prems"(2) True by (auto simp: less_Suc_eq)
        with True inb cap "1.IH"(1) "1.prems"(1) show ?thesis
          by (simp add: startNext_from.simps [of i s])
      next
        case False
        let ?s' = "s\<lparr>requestsList := (requestsList s)[i := (requestsList s ! i)\<lparr>started := True\<rparr>],
              launched := launched s @ [i],
              inflight := inflight s @ [i],
              runningRequests := runningRequests s + 1\<rparr>"
        have "\<forall>j < Suc i. j < length (requestsList ?s') \<longrightarrow> started (requestsList ?s' ! j)"
          using "1.prems"(2) by (auto simp: less_Suc_eq nth_list_update)
        with False inb cap "1.IH"(2) "1.prems"(1) show ?thesis
          by (simp add: startNext_from.simps [of i s])
      qed
    qed
  qed
qed

lemma startNext_from_idle:
  "\<not> ge_number (runningRequests s) (maxRequests s) \<Longrightarrow>
     (\<forall>j. i \<le> j \<and> j < length (requestsList s) \<longrightarrow> started (requestsList s ! j)) \<Longrightarrow>
     startNext_from i s = (False, s)"
proof (induction i s rule: startNext_from.induct)
  case (1 i s)
  show ?case
  proof (cases "i < length (requestsList s)")
    case False
    then show ?thesis by (simp add: startNext_from.simps [of i s])
  next
    case True
    with "1.prems" have "started (requestsList s ! i)" by simp
    with True "1.prems" "1.IH"(1) show ?thesis
      by (simp add: startNext_from.simps [of i s])
  qed
qed

lemma startNext_from_blocked:
  "ge_number (runningRequests s) (maxRequests s) \<Longrightarrow> snd (startNext_from i s) = s"
  by (simp add: startNext_from.simps [of i s])

lemma finished_subset:
  assumes "sched_inv s"
  shows "set (finished s) \<subseteq> {..<length (requestsList s)}"
  using assms by (auto simp: sched_inv_def)

lemma finished_bound:
  assumes "sched_inv s"
  shows "length (finished s) \<le> length (requestsList s)"
proof -
  from assms have d: "distinct (finished s)" by (simp add: sched_inv_def)
  have "card (set (finished s)) \<le> card {..<length (requestsList s)}"
    by (rule card_mono) (use finished_subset [OF assms] in auto)
  with d show ?thesis by (simp add: distinct_card)
qed

lemma all_finished:
  assumes "sched_inv s" and "length (finished s) = length (requestsList s)"
  shows "set (finished s) = {..<length (requestsList s)}"
proof (rule card_subset_eq)
  from assms have d: "distinct (finished s)" by (simp add: sched_inv_def)
  with assms(2) show "card (set (finished s)) = card {..<length (requestsList s)}"
    by (simp add: distinct_card)
qed (use finished_subset [OF assms(1)] in auto)

lemma all_finished_idle:
  assumes "sched_inv s" and "length (finished s) = length (requestsList s)"
  shows "inflight s = []" and "\<forall>j < length (requestsList s). started (requestsList s ! j)"
proof -
  note F = all_finished [OF assms]
  from assms(1) have L: "set (launched s) =
      {i. i < length (requestsList s) \<and> started (requestsList s ! i)}"
    and D: "set (inflight s) \<inter> set (finished s) = {}"
    and U: "set (inflight s) \<union> set (finished s) = set (launched s)"
    by (simp_all add: sched_inv_def)
  show "\<forall>j < length (requestsList s). started (requestsList s ! j)"
  proof (intro allI impI)
    fix j assume "j < length (requestsList s)"
    with F have "j \<in> set (finished s)" by simp
    with U have "j \<in> set (launched s)" by blast
    with L show "started (requestsList s ! j)" by simp
  qed
  have "set (inflight s) = {}"
  proof (rule equals0I)
    fix j assume J: "j \<in> set (inflight s)"
    with U have "j \<in> set (launched s)" by blast
    with L have "j < length (requestsList s)" by simp
    then have "j \<in> set (finished s)" by (simp only: F lessThan_iff)
    with J D show False by blast
  qed
  then show "inflight s = []" by simp
qed

lemma startNext_frame:
  "maxRequests (startNext s) = maxRequests s \<and>
   completedRequests (startNext s) = completedRequests s \<and>
   allRequestsCompleted (startNext s) = allRequestsCompleted s \<and>
   newMagazines (startNext s) = newMagazines s \<and>
   finished (startNext s) = finished s \<and>
   length (requestsList (startNext s)) = length (requestsList s) \<and>
   map scrape (requestsList (startNext s)) = map scrape (requestsList s)"
proof -
  obtain b s' where E: "startNext_from 0 s = (b, s')" by (cases "startNext_from 0 s")
  from startNext_from_frame [of 0 s] E show ?thesis
    by (cases b; cases "allRequestsCompleted s")
       (simp_all add: startNext_def allRequestsCompleted_call_def)
qed

lemma startNext_inv:
  assumes "sched_inv s"
  shows "sched_inv (startNext s)"
proof -
  obtain b s' where E: "startNext_from 0 s = (b, s')" by (cases "startNext_from 0 s")
  from startNext_from_inv [OF assms, of 0] E have "sched_inv s'" by simp
  moreover have "sched_inv (s'\<lparr>resolves := resolves s' + 1\<rparr>) = sched_inv s'"
    by (simp add: sched_inv_def)
  ultimately show ?thesis using E
    by (cases b)
       (simp_all add: startNext_def allRequestsCompleted_call_def split: callback.splits)
qed

lemma startNext_saturated:
  "ge_number (runningRequests (startNext s)) (maxRequests s) \<or>
   (\<forall>j < length (requestsList s). started (requestsList (startNext s) ! j))"
proof -
  obtain b s' where E: "startNext_from 0 s = (b, s')" by (cases "startNext_from 0 s")
  show ?thesis
  proof (cases b)
    case True
    with startNext_from_early [of 0 s] E show ?thesis by (simp add: startNext_def)
  next
    case False
    with startNext_from_all [of 0 s] E
    have "\<forall>j < length (requestsList s). started (requestsList s' ! j)" by simp
    with False E show ?thesis
      by (simp add: startNext_def allRequestsCompleted_call_def split: callback.splits)
  qed
qed

lemma startNext_resolves:
  assumes I: "sched_inv s" and R: "allRequestsCompleted s = Resolve"
  shows "resolves (startNext s) =
     resolves s + (if length (finished s) = length (requestsList s) then 1 else 0)"
proof (cases "length (finished s) = length (requestsList s)")
  case True
  note idle = all_finished_idle [OF I True]
  from I have C: "completedRequests s = int (length (finished s))"
    and Rn: "runningRequests s = int (length (inflight s))"
    and M: "launched s = [] \<or> \<not> ge_number 0 (maxRequests s)"
    and L: "set (launched s) =
      {i. i < length (requestsList s) \<and> started (requestsList s ! i)}"
    by (simp_all add: sched_inv_def)
  have E: "startNext_from 0 s = (False, s)"
  proof (cases "requestsList s = []")
    case True
    then show ?thesis by (simp add: startNext_from.simps [of 0 s])
  next
    case False
    with idle(2) L have "0 \<in> set (launched s)" by simp
    with M have "\<not> ge_number 0 (maxRequests s)" by auto
    with Rn idle(1) have "\<not> ge_number (runningRequests s) (maxRequests s)" by simp
    with idle(2) show ?thesis by (intro startNext_from_idle) simp_all
  qed
  with True C R show ?thesis
    by (simp add: startNext_def allRequestsCompleted_call_def)
next
  case False
  with finished_bound [OF I] have lt: "length (finished s) < length (requestsList s)" by simp
  from I have C: "completedRequests s = int (length (finished s))"
    by (simp add: sched_inv_def)
  obtain b s' where E: "startNext_from 0 s = (b, s')" by (cases "startNext_from 0 s")
  from startNext_from_frame [of 0 s] E
  have "resolves s' = resolves s" "completedRequests s' = completedRequests s"
    "length (requestsList s') = length (requestsList s)" by simp_all
  with False lt C E show ?thesis by (cases b) (simp_all add: startNext_def)
qed

lemma finish_pre_inv:
  assumes I: "sched_inv s" and P: "i \<in> set (inflight s)"
  shows "sched_inv (s\<lparr>newMagazines := ms,
          runningRequests := runningRequests s - 1,
          completedRequests := completedRequests s + 1,
          inflight := remove1 i (inflight s),
          finished := finished s @ [i]\<rparr>)"
proof -
  from I have D: "set (inflight s) \<inter> set (finished s) = {}"
    and U: "set (inflight s) \<union> set (finished s) = set (launched s)"
    and di: "distinct (inflight s)" and df: "distinct (finished s)"
    and R: "runningRequests s = int (length (inflight s))"
    and C: "completedRequests s = int (length (finished s))"
    and rest: "distinct (launched s)" "launched s = [] \<or> \<not> ge_number 0 (maxRequests s)"
      "set (launched s) = {i. i < length (requestsList s) \<and> started (requestsList s ! i)}"
    by (simp_all add: sched_inv_def)
  from I have M: "runningRequests s = 0 \<or> \<not> ge_number (runningRequests s - 1) (maxRequests s)"
    unfolding sched_inv_def by blast
  from P D have nf: "i \<notin> set (finished s)" by blast
  from P have len: "length (remove1 i (inflight s)) = length (inflight s) - 1"
    by (simp add: length_remove1)
  from P have pos: "0 < length (inflight s)" by (cases "inflight s") auto
  from di have S: "set (remove1 i (inflight s)) = set (inflight s) - {i}" by simp
  have U': "set (remove1 i (inflight s)) \<union> set (finished s @ [i]) = set (launched s)"
    using S U P by auto
  have D': "set (remove1 i (inflight s)) \<inter> set (finished s @ [i]) = {}"
    using S D by auto
  have R': "runningRequests s - 1 = int (length (remove1 i (inflight s)))"
  proof (cases "length (inflight s)")
    case 0
    with pos show ?thesis by simp
  next
    case (Suc k)
    with R len show ?thesis by simp
  qed
  from R pos M have "\<not> ge_number (runningRequests s - 1) (maxRequests s)" by simp
  then have M': "runningRequests s - 1 = 0 \<or>
      \<not> ge_number (runningRequests s - 1 - 1) (maxRequests s)"
    using ge_number_mono [of "runningRequests s - 1 - 1" "maxRequests s" "runningRequests s - 1"]
    by auto
  show ?thesis
    unfolding sched_inv_def
    using U' D' R' M' C di df nf rest by simp
qed

lemma finish_inv:
  assumes I: "run_inv s" and P: "i \<in> set (inflight s)"
  shows "run_inv (finish i ok s)"
proof -
  define ms where "ms = (if ok then newMagazines s @ [dest (scrape (requestsList s ! i))]
             else newMagazines s)"
  define s1 where "s1 = s\<lparr>newMagazines := ms,
          runningRequests := runningRequests s - 1,
          completedRequests := completedRequests s + 1,
          inflight := remove1 i (inflight s),
          finished := finished s @ [i]\<rparr>"
  have F: "finish i ok s = startNext s1" by (simp add: finish_def settle_def s1_def ms_def)
  from I have I0: "sched_inv s" and cb: "allRequestsCompleted s = Resolve"
    and rs: "resolves s = (if length (finished s) = length (requestsList s) then 1 else 0)"
    by (simp_all add: run_inv_def)
  from finish_pre_inv [OF I0 P] have I1: "sched_inv s1" by (simp add: s1_def)
  from finished_bound [OF I1] have "length (finished s) < length (requestsList s)"
    by (simp add: s1_def)
  with rs have r0: "resolves s1 = 0" by (simp add: s1_def)
  have cb1: "allRequestsCompleted s1 = Resolve" using cb by (simp add: s1_def)
  note fr = startNext_frame [of s1]
  have "resolves (startNext s1) =
      (if length (finished (startNext s1)) = length (requestsList (startNext s1)) then 1 else 0)"
    using startNext_resolves [OF I1 cb1] r0 fr by simp
  moreover have "ge_number (runningRequests (startNext s1)) (maxRequests (startNext s1)) \<or>
      (\<forall>j < length (requestsList (startNext s1)). started (requestsList (startNext s1) ! j))"
    using startNext_saturated [of s1] fr by simp
  moreover have "allRequestsCompleted (startNext s1) = Resolve" using fr cb1 by simp
  ultimately show ?thesis
    using startNext_inv [OF I1] unfolding F run_inv_def by simp
qed

lemma run_inv_run:
  "run_inv s \<Longrightarrow> run s es = Some s' \<Longrightarrow> run_inv s'"
proof (induction es arbitrary: s)
  case Nil
  then show ?case by simp
next
  case (Cons e es)
  obtain i ok where e: "e = (i, ok)" by (cases e)
  with Cons.prems(2) have P: "i \<in> set (inflight s)" and R: "run (finish i ok s) es = Some s'"
    by (simp_all split: if_splits)
  from Cons.IH [OF finish_inv [OF Cons.prems(1) P] R] show ?case .
qed

lemma fresh_start:
  assumes "fresh s"
  shows "run_inv (startNext (s\<lparr>allRequestsCompleted := Resolve\<rparr>))"
proof -
  define s1 where "s1 = s\<lparr>allRequestsCompleted := Resolve\<rparr>"
  from assms have ns: "\<And>j. j < length (requestsList s) \<Longrightarrow> \<not> started (requestsList s ! j)"
    by (simp add: fresh_def list_all_length)
  then have L: "{i. i < length (requestsList s) \<and> started (requestsList s ! i)} = {}"
    by blast
  have I1: "sched_inv s1"
    unfolding sched_inv_def using assms L by (simp add: s1_def fresh_def)
  have cb1: "allRequestsCompleted s1 = Resolve" by (simp add: s1_def)
  have r0: "resolves s1 = 0" "finished s1 = []" using assms by (simp_all add: s1_def fresh_def)
  note fr = startNext_frame [of s1]
  have "resolves (startNext s1) =
      (if length (finished (startNext s1)) = length (requestsList (startNext s1)) then 1 else 0)"
    using startNext_resolves [OF I1 cb1] r0 fr by simp
  moreover have "ge_number (runningRequests (startNext s1)) (maxRequests (startNext s1)) \<or>
      (\<forall>j < length (requestsList (startNext s1)). started (requestsList (startNext s1) ! j))"
    using startNext_saturated [of s1] fr by simp
  moreover have "allRequestsCompleted (startNext s1) = Resolve" using fr cb1 by simp
  ultimately show ?thesis
    using startNext_inv [OF I1] unfolding s1_def [symmetric] run_inv_def by simp
qed

lemma enroll_frame:
  "maxRequests (enroll nd d sk ls s) = maxRequests s \<and>
   runningRequests (enroll nd d sk ls s) = runningRequests s \<and>
   completedRequests (enroll nd d sk ls s) = completedRequests s \<and>
   newMagazines (enroll nd d sk ls s) = newMagazines s \<and>
   resolves (enroll nd d sk ls s) = resolves s \<and>
   launched (enroll nd d sk ls s) = launched s \<and>
   inflight (enroll nd d sk ls s) = inflight s \<and>
   finished (enroll nd d sk ls s) = finished s"
  by (cases sk; induction ls arbitrary: s) simp_all

lemma enroll_requestsList:
  "requestsList (enroll nd d sk ls s) =
     requestsList s @
     map (\<lambda>l. \<lparr>started = False,
               scrape = scraperFactory (url l) (magazinefolder nd d l) (destination nd d l)\<rparr>)
       (filter (\<lambda>l. \<not> (sk \<and> fs_access nd (destination nd d l))) ls)"
  by (cases sk; induction ls arbitrary: s) simp_all

lemma fresh_scrapeInit: "fresh (enroll nd d sk ls (scrapeInit s))"
  by (simp add: fresh_def enroll_frame enroll_requestsList list_all_iff)
     (simp add: scrapeInit_def)

lemma scrape_links_inv: "run_inv (scrape_links nd d sk ls (scrapeInit s))"
  unfolding scrape_links_def by (rule fresh_start [OF fresh_scrapeInit])

lemma run_maxRequests:
  "run s es = Some s' \<Longrightarrow> maxRequests s' = maxRequests s"
proof (induction es arbitrary: s)
  case Nil
  then show ?case by simp
next
  case (Cons e es)
  obtain i ok where e: "e = (i, ok)" by (cases e)
  with Cons.prems have R: "run (finish i ok s) es = Some s'" by (simp split: if_splits)
  have "maxRequests (finish i ok s) = maxRequests s"
    by (simp add: finish_def settle_def startNext_frame)
  with Cons.IH [OF R] show ?case by simp
qed

lemma scrape_links_maxRequests:
  "maxRequests (scrape_links nd d sk ls (scrapeInit s)) = maxRequests s"
  by (simp add: scrape_links_def startNext_frame enroll_frame) (simp add: scrapeInit_def)

lemma pending_tasks_inflight:
  assumes "sched_inv s"
  shows "pending_tasks s = set (inflight s)"
proof -
  from assms have L: "set (launched s) =
      {i. i < length (requestsList s) \<and> started (requestsList s ! i)}"
    and D: "set (inflight s) \<inter> set (finished s) = {}"
    and U: "set (inflight s) \<union> set (finished s) = set (launched s)"
    by (simp_all add: sched_inv_def)
  have "pending_tasks s = set (launched s) - set (finished s)"
    unfolding pending_tasks_def L by blast
  also have "\<dots> = set (inflight s)" using D U by blast
  finally show ?thesis .
qed

lemma finish_frame:
  "finished (finish i ok s) = finished s @ [i] \<and>
   newMagazines (finish i ok s) =
     (if ok then newMagazines s @ [dest (scrape (requestsList s ! i))] else newMagazines s) \<and>
   completedRequests (finish i ok s) = completedRequests s + 1 \<and>
   maxRequests (finish i ok s) = maxRequests s \<and>
   length (requestsList (finish i ok s)) = length (requestsList s) \<and>
   map scrape (requestsList (finish i ok s)) = map scrape (requestsList s)"
  by (simp add: finish_def settle_def startNext_frame)

lemma run_frame:
  "run s es = Some s' \<Longrightarrow>
     finished s' = finished s @ map fst es \<and>
     length (requestsList s') = length (requestsList s) \<and>
     map scrape (requestsList s') = map scrape (requestsList s)"
proof (induction es arbitrary: s)
  case Nil
  then show ?case by simp
next
  case (Cons e es)
  obtain i ok where e: "e = (i, ok)" by (cases e)
  with Cons.prems have R: "run (finish i ok s) es = Some s'" by (simp split: if_splits)
  from Cons.IH [OF R] finish_frame [of i ok s] e show ?case by simp
qed

lemma inflight_bound:
  assumes "sched_inv s" and "i \<in> set (inflight s)"
  shows "i < length (requestsList s)"
proof -
  from assms(1) have L: "set (launched s) =
      {i. i < length (requestsList s) \<and> started (requestsList s ! i)}"
    and U: "set (inflight s) \<union> set (finished s) = set (launched s)"
    by (simp_all add: sched_inv_def)
  from U assms(2) have "i \<in> set (launched s)" by blast
  with L show ?thesis by simp
qed

lemma run_newMagazines:
  "run_inv s \<Longrightarrow> run s es = Some s' \<Longrightarrow>
     newMagazines s' =
       newMagazines s @ map (\<lambda>e. dest (map scrape (requestsList s) ! fst e)) (filter snd es)"
proof (induction es arbitrary: s)
  case Nil
  then show ?case by simp
next
  case (Cons e es)
  obtain i ok where e: "e = (i, ok)" by (cases e)
  with Cons.prems(2) have P: "i \<in> set (inflight s)" and R: "run (finish i ok s) es = Some s'"
    by (simp_all split: if_splits)
  from Cons.prems(1) have "sched_inv s" by (simp add: run_inv_def)
  from inflight_bound [OF this P]
  have N: "map scrape (requestsList s) ! i = scrape (requestsList s ! i)" by simp
  from Cons.IH [OF finish_inv [OF Cons.prems(1) P] R] finish_frame [of i ok s] e N
  show ?case by simp
qed

lemma distinct_count_list:
  "distinct xs \<Longrightarrow> count_list xs x = (if x \<in> set xs then 1 else 0)"
  by (induction xs) auto

lemma once_iff_all:
  assumes I: "sched_inv s"
  shows "(\<forall>i < length (requestsList s). count_list (finished s) i = 1) \<longleftrightarrow>
         length (finished s) = length (requestsList s)"
proof
  assume A: "\<forall>i < length (requestsList s). count_list (finished s) i = 1"
  have "{..<length (requestsList s)} \<subseteq> set (finished s)"
  proof
    fix i assume "i \<in> {..<length (requestsList s)}"
    with A have "count_list (finished s) i \<noteq> 0" by simp
    then show "i \<in> set (finished s)" by (simp add: count_list_0_iff)
  qed
  then have "card {..<length (requestsList s)} \<le> card (set (finished s))"
    by (intro card_mono) simp_all
  also have "\<dots> \<le> length (finished s)" by (rule card_length)
  finally have "length (requestsList s) \<le> length (finished s)" by simp
  with finished_bound [OF I] show "length (finished s) = length (requestsList s)" by simp
next
  assume E: "length (finished s) = length (requestsList s)"
  from I have d: "distinct (finished s)" by (simp add: sched_inv_def)
  show "\<forall>i < length (requestsList s). count_list (finished s) i = 1"
  proof (intro allI impI)
    fix i assume "i < length (requestsList s)"
    then have "i \<in> set (finished s)" by (simp only: all_finished [OF I E] lessThan_iff)
    with d show "count_list (finished s) i = 1" by (simp add: distinct_count_list)
  qed
qed

lemma unresolved_pending:
  assumes I: "run_inv s" and M: "\<not> ge_number 0 (maxRequests s)"
    and U: "length (finished s) \<noteq> length (requestsList s)"
  shows "inflight s \<noteq> []"
proof
  assume E: "inflight s = []"
  from I have S: "sched_inv s" by (simp add: run_inv_def)
  from S have R: "runningRequests s = int (length (inflight s))"
    and L: "set (launched s) =
      {i. i < length (requestsList s) \<and> started (requestsList s ! i)}"
    and Un: "set (inflight s) \<union> set (finished s) = set (launched s)"
    and d: "distinct (finished s)"
    by (simp_all add: sched_inv_def)
  from I have "ge_number (runningRequests s) (maxRequests s) \<or>
      (\<forall>j < length (requestsList s). started (requestsList s ! j))"
    by (simp add: run_inv_def)
  with R E M have A: "\<forall>j < length (requestsList s). started (requestsList s ! j)" by simp
  have "{..<length (requestsList s)} \<subseteq> set (finished s)"
  proof
    fix j assume "j \<in> {..<length (requestsList s)}"
    with A have "j < length (requestsList s) \<and> started (requestsList s ! j)" by simp
    then have "j \<in> set (launched s)" by (simp only: L mem_Collect_eq)
    with Un E show "j \<in> set (finished s)" by simp
  qed
  then have "card {..<length (requestsList s)} \<le> card (set (finished s))"
    by (intro card_mono) simp_all
  also have "\<dots> \<le> length (finished s)" by (rule card_length)
  finally have "length (requestsList s) \<le> length (finished s)" by simp
  with finished_bound [OF S] U show False by simp
qed

lemma startNext_from_appends:
  "\<exists>xs. launched (snd (startNext_from i s)) = launched s @ xs \<and>
        inflight (snd (startNext_from i s)) = inflight s @ xs"
proof (induction i s rule: startNext_from.induct)
  case (1 i s)
  show ?case
  proof (cases "i < length (requestsList s)")
    case False
    then show ?thesis by (simp add: startNext_from.simps [of i s])
  next
    case inb: True
    show ?thesis
    proof (cases "ge_number (runningRequests s) (maxRequests s)")
      case True
      with inb show ?thesis by (simp add: startNext_from.simps [of i s])
    next
      case cap: False
      show ?thesis
      proof (cases "started (requestsList s ! i)")
        case True
        with inb cap "1.IH"(1) show ?thesis by (simp add: startNext_from.simps [of i s])
      next
        case False
        from "1.IH"(2) [OF inb cap False] obtain xs where
          "launched (snd (startNext_from (Suc i)
             (s\<lparr>requestsList := (requestsList s)[i := (requestsList s ! i)\<lparr>started := True\<rparr>],
                launched := launched s @ [i],
                inflight := inflight s @ [i],
                runningRequests := runningRequests s + 1\<rparr>))) = launched s @ [i] @ xs \<and>
           inflight (snd (startNext_from (Suc i)
             (s\<lparr>requestsList := (requestsList s)[i := (requestsList s ! i)\<lparr>started := True\<rparr>],
                launched := launched s @ [i],
                inflight := inflight s @ [i],
                runningRequests := runningRequests s + 1\<rparr>))) = inflight s @ [i] @ xs"
          by auto
        with False inb cap show ?thesis
          by (simp add: startNext_from.simps [of i s])
      qed
    qed
  qed
qed

lemma startNext_appends:
  "\<exists>xs. launched (startNext s) = launched s @ xs \<and> inflight (startNext s) = inflight s @ xs"
proof -
  obtain b s' where E: "startNext_from 0 s = (b, s')" by (cases "startNext_from 0 s")
  from startNext_from_appends [of 0 s] E show ?thesis
    by (cases b)
       (simp_all add: startNext_def allRequestsCompleted_call_def split: callback.splits)
qed

lemma run_launched:
  "run s es = Some s' \<Longrightarrow> \<exists>xs. launched s' = launched s @ xs"
proof (induction es arbitrary: s)
  case Nil
  then show ?case by simp
next
  case (Cons e es)
  obtain i ok where e: "e = (i, ok)" by (cases e)
  with Cons.prems have R: "run (finish i ok s) es = Some s'" by (simp split: if_splits)
  from startNext_appends [of "settle i ok s"]
  obtain xs where "launched (finish i ok s) = launched s @ xs"
    by (auto simp: finish_def settle_def)
  with Cons.IH [OF R] show ?case by auto
qed

text \<open>
  With a cap that 0 already reaches (\<open>0 >= maxRequests\<close>) and a non-empty batch, the first
  \<open>startNext\<close> returns from inside its loop: nothing is started and \<open>resolve\<close> is not
  called.
\<close>

lemma nonpositive_cap_stalls:
  assumes "ge_number 0 (maxRequests s0)"
    and "requestsList (enroll nd d sk ls (scrapeInit s0)) \<noteq> []"
  shows "scrape_result (scrape_links nd d sk ls (scrapeInit s0)) = None \<and>
         inflight (scrape_links nd d sk ls (scrapeInit s0)) = []"
proof -
  define s1 where "s1 = (enroll nd d sk ls (scrapeInit s0))\<lparr>allRequestsCompleted := Resolve\<rparr>"
  have L: "0 < length (requestsList s1)" using assms(2) by (simp add: s1_def)
  have Z: "runningRequests s1 = 0" "resolves s1 = 0" "inflight s1 = []"
    "maxRequests s1 = maxRequests s0"
    by (simp_all add: s1_def enroll_frame) (simp_all add: scrapeInit_def)
  have "startNext_from 0 s1 = (True, s1)"
    using L Z assms(1) by (simp add: startNext_from.simps [of 0 s1])
  then have "startNext s1 = s1" by (simp add: startNext_def)
  then show ?thesis
    using Z unfolding scrape_links_def s1_def [symmetric] by (simp add: scrape_result_def)
qed

section \<open>The library functions on examples\<close>

lemma basename_examples:
  "basename ''/issue/2020-01.pdf'' = ''2020-01.pdf'' \<and> basename ''/a/b/'' = ''b'' \<and>
   basename ''a.pdf'' = ''a.pdf'' \<and> basename ''///'' = [] \<and> basename [] = [] \<and>
   basename ''/issue/a.pdf?v=1'' = ''a.pdf?v=1''"
  by code_simp

lemma extname_examples:
  "extname ''/issue/2020-01.pdf'' = ''.pdf'' \<and> extname ''/issue/2020-01'' = [] \<and>
   extname ''/a.b/c'' = [] \<and> extname ''/a/.bashrc'' = [] \<and> extname ''/a/..'' = [] \<and>
   extname ''/a/...'' = ''.'' \<and> extname ''/a/b.'' = ''.'' \<and> extname ''/x.tar.gz/'' = ''.gz'' \<and>
   extname ''/a/.b.c'' = ''.c'' \<and> extname ''/issue/2020-01?v=1.2'' = ''.2'' \<and> extname [] = []"
  by code_simp

lemma decodeURI_examples:
  "decodeURI ''2020-01.pdf'' = Some ''2020-01.pdf'' \<and>
   decodeURI ''a%20b.pdf'' = Some ''a b.pdf'' \<and>
   decodeURI ''a%2Fb%41%3f'' = Some ''a%2FbA%3f'' \<and>
   decodeURI ''caf%C3%A9.pdf'' = Some [CHR ''c'', CHR ''a'', CHR ''f'', CHR 0xC3, CHR 0xA9,
     CHR ''.'', CHR ''p'', CHR ''d'', CHR ''f''] \<and>
   decodeURI ''%E2%82%AC'' = Some [CHR 0xE2, CHR 0x82, CHR 0xAC] \<and>
   decodeURI ''%F0%9F%98%80'' = Some [CHR 0xF0, CHR 0x9F, CHR 0x98, CHR 0x80] \<and>
   decodeURI ''caf%E9.pdf'' = None \<and> decodeURI ''100%.pdf'' = None \<and>
   decodeURI ''%4'' = None \<and> decodeURI ''%zz'' = None \<and> decodeURI ''%80'' = None \<and>
   decodeURI ''%C0%80'' = None \<and> decodeURI ''%ED%A0%80'' = None \<and>
   decodeURI ''%F5%80%80%80'' = None \<and> decodeURI ''%E2%82x'' = None"
  by code_simp

lemma pdf_match_examples:
  "pdf_match ''a.pdf'' \<and> pdf_match ''dir/.pdf'' \<and> \<not> pdf_match ''b.epub'' \<and>
   \<not> pdf_match ''.pdf'' \<and> \<not> pdf_match ''a.pdfx'' \<and> \<not> pdf_match ''apdf'' \<and>
   \<not> pdf_match [CHR ''a'', CHR 0x0A, CHR ''.'', CHR ''p'', CHR ''d'', CHR ''f''] \<and>
   \<not> pdf_match [CHR ''a'', CHR 0x0D, CHR ''.'', CHR ''p'', CHR ''d'', CHR ''f''] \<and>
   \<not> pdf_match [CHR ''a'', CHR 0xE2, CHR 0x80, CHR 0xA8, CHR ''.'', CHR ''p'', CHR ''d'', CHR ''f''] \<and>
   \<not> pdf_match [CHR ''a'', CHR 0xE2, CHR 0x80, CHR 0xA9, CHR ''.'', CHR ''p'', CHR ''d'', CHR ''f''] \<and>
   pdf_match [CHR ''a'', CHR 0xE2, CHR 0x82, CHR 0xAC, CHR ''.'', CHR ''p'', CHR ''d'', CHR ''f''] \<and>
   pdf_match [CHR 0x0A, CHR ''a'', CHR ''.'', CHR ''p'', CHR ''d'', CHR ''f'']"
  by code_simp

lemma ge_number_examples:
  "ge_number 2 (Finite 2) \<and> \<not> ge_number 2 (Finite (5 / 2)) \<and> ge_number 3 (Finite (5 / 2)) \<and>
   \<not> ge_number 7 NaN \<and> \<not> ge_number 7 PosInfinity \<and> ge_number 0 NegInfinity \<and>
   ge_number 0 (Finite 0) \<and> \<not> ge_number 0 (Finite 1) \<and> ge_number 0 (Finite (- 1))"
  by code_simp

section \<open>Lemmas about link extraction and enrolment\<close>



lemma getLinks_formats_complete:
  "getLinks_formats nd sid formats rs = Inr out \<Longrightarrow>
     set rs \<subseteq> set out \<and>
     (\<forall>a \<in> set formats.
        (\<forall>e. getLinks_format nd sid a \<noteq> Inl e) \<and>
        (\<forall>l. getLinks_format nd sid a = Inr (Some l) \<longrightarrow> l \<in> set out))"
proof (induction formats arbitrary: rs)
  case Nil
  then show ?case by simp
next
  case (Cons a formats)
  show ?case
  proof (cases "getLinks_format nd sid a")
    case (Inl e)
    with Cons.prems show ?thesis by simp
  next
    case (Inr r)
    show ?thesis
    proof (cases r)
      case None
      with Inr Cons.prems have "getLinks_formats nd sid formats rs = Inr out" by simp
      from Cons.IH [OF this] Inr None show ?thesis by simp
    next
      case (Some l)
      with Inr Cons.prems have "getLinks_formats nd sid formats (rs @ [l]) = Inr out" by simp
      from Cons.IH [OF this] Inr Some show ?thesis by simp
    qed
  qed
qed

lemma getLinks_sections_complete:
  "getLinks_sections nd sections rs = Inr out \<Longrightarrow>
     set rs \<subseteq> set out \<and>
     (\<forall>s \<in> set sections. \<forall>l. link_source nd s l \<longrightarrow> l \<in> set out) \<and>
     (\<forall>s \<in> set sections. elem_id s \<noteq> [] \<longrightarrow>
        (\<forall>a \<in> set (getMagazineLinks (hd (getMagazineLinksTable s))).
           getMagazineLinksTable s \<noteq> [] \<longrightarrow>
           (\<forall>e. getLinks_format nd (elem_id s) a \<noteq> Inl e)))"
proof (induction sections arbitrary: rs)
  case Nil
  then show ?case by simp
next
  case (Cons s sections)
  show ?case
  proof (cases "elem_id s = [] \<or> getMagazineLinksTable s = []")
    case True
    with Cons.prems have "getLinks_sections nd sections rs = Inr out"
      by (auto split: if_splits)
    from Cons.IH [OF this] True show ?thesis
      by (auto simp: link_source_def)
  next
    case False
    then obtain t ts where T: "getMagazineLinksTable s = t # ts" and I: "elem_id s \<noteq> []"
      by (cases "getMagazineLinksTable s") auto
    show ?thesis
    proof (cases "getLinks_formats nd (elem_id s) (getMagazineLinks t) rs")
      case (Inl e)
      with Cons.prems T I show ?thesis by simp
    next
      case (Inr mid)
      with Cons.prems T I have R: "getLinks_sections nd sections mid = Inr out" by simp
      note A = getLinks_formats_complete [OF Inr]
      note B = Cons.IH [OF R]
      from A B have 1: "set rs \<subseteq> set out" by blast
      have 2: "\<forall>l. link_source nd s l \<longrightarrow> l \<in> set out"
      proof (intro allI impI)
        fix l assume "link_source nd s l"
        with T obtain a where "a \<in> set (getMagazineLinks t)"
          "getLinks_format nd (elem_id s) a = Inr (Some l)"
          by (auto simp: link_source_def list_ex_iff)
        with A have "l \<in> set mid" by blast
        with B show "l \<in> set out" by blast
      qed
      have 3: "\<forall>a \<in> set (getMagazineLinks (hd (getMagazineLinksTable s))).
           getMagazineLinksTable s \<noteq> [] \<longrightarrow>
           (\<forall>e. getLinks_format nd (elem_id s) a \<noteq> Inl e)"
        using A T by simp
      from 1 2 3 B show ?thesis by simp
    qed
  qed
qed

lemma dest_scraperFactory: "dest (scraperFactory u d f) = f"
  by (simp add: scraperFactory_def)

lemma scrape_links_actions:
  "map scrape (requestsList (scrape_links nd d sk ls (scrapeInit s))) =
     map (\<lambda>l. scraperFactory (url l) (magazinefolder nd d l) (destination nd d l))
       (filter (\<lambda>l. \<not> (sk \<and> fs_access nd (destination nd d l))) ls)"
  by (simp add: scrape_links_def startNext_frame enroll_requestsList comp_def)
     (simp add: scrapeInit_def)

section \<open>Lemmas about the notifier\<close>

lemma upload_loop_Cons:
  "upload_loop ok ch (f # fs) calls =
     (if ok (length calls) then upload_loop ok ch fs (calls @ [upload_of ch f])
      else (calls @ [upload_of ch f], Some UploadError))"
  by (simp add: upload_of_def)

lemma upload_loop_all:
  "(\<forall>k < length files. ok (length calls + k)) \<Longrightarrow>
     upload_loop ok ch files calls = (calls @ map (upload_of ch) files, None)"
proof (induction files arbitrary: calls)
  case Nil
  then show ?case by simp
next
  case (Cons f files)
  from Cons.prems have "ok (length calls)" by force
  moreover have "\<forall>k < length files. ok (length (calls @ [upload_of ch f]) + k)"
  proof (intro allI impI)
    fix k assume "k < length files"
    with Cons.prems have "ok (length calls + Suc k)" by force
    then show "ok (length (calls @ [upload_of ch f]) + k)" by simp
  qed
  ultimately show ?case using Cons.IH [of "calls @ [upload_of ch f]"]
    by (simp add: upload_loop_Cons del: upload_loop.simps(2))
qed

lemma upload_loop_prefix:
  "\<exists>n. fst (upload_loop ok ch files calls) = calls @ take n (map (upload_of ch) files)"
proof (induction files arbitrary: calls)
  case Nil
  then show ?case by simp
next
  case (Cons f files)
  show ?case
  proof (cases "ok (length calls)")
    case True
    from Cons.IH [of "calls @ [upload_of ch f]"] obtain n where
      "fst (upload_loop ok ch files (calls @ [upload_of ch f])) =
         (calls @ [upload_of ch f]) @ take n (map (upload_of ch) files)"
      by blast
    with True show ?thesis
      by (intro exI [of _ "Suc n"]) (simp add: upload_loop_Cons del: upload_loop.simps(2))
  next
    case False
    then show ?thesis by (intro exI [of _ "Suc 0"]) (simp add: upload_loop_Cons del: upload_loop.simps(2))
  qed
qed

lemma upload_loop_fail:
  "(\<forall>k < length pre. ok (length calls + k)) \<Longrightarrow> \<not> ok (length calls + length pre) \<Longrightarrow>
     upload_loop ok ch (pre @ file # post) calls =
       (calls @ map (upload_of ch) (pre @ [file]), Some UploadError)"
proof (induction pre arbitrary: calls)
  case Nil
  then show ?case by (simp add: upload_loop_Cons del: upload_loop.simps(2))
next
  case (Cons f pre)
  from Cons.prems(1) have "ok (length calls)" by force
  moreover have "\<forall>k < length pre. ok (length (calls @ [upload_of ch f]) + k)"
  proof (intro allI impI)
    fix k assume "k < length pre"
    with Cons.prems(1) have "ok (length calls + Suc k)" by force
    then show "ok (length (calls @ [upload_of ch f]) + k)" by simp
  qed
  moreover have "\<not> ok (length (calls @ [upload_of ch f]) + length pre)"
    using Cons.prems(2) by simp
  ultimately show ?case using Cons.IH [of "calls @ [upload_of ch f]"]
    by (simp add: upload_loop_Cons del: upload_loop.simps(2))
qed

lemma pdf_match_iff:
  "pdf_match m \<longleftrightarrow>
     (\<exists>stem. m = stem @ ''.pdf'' \<and> stem \<noteq> [] \<and> \<not> ends_with_line_terminator stem)"
proof
  assume P: "pdf_match m"
  then have "m = take (length m - 4) m @ ''.pdf''"
    by (metis append_take_drop_id pdf_match_def)
  moreover from P have "take (length m - 4) m \<noteq> []" by (auto simp: pdf_match_def)
  moreover from P have "\<not> ends_with_line_terminator (take (length m - 4) m)"
    by (simp add: pdf_match_def)
  ultimately show "\<exists>stem. m = stem @ ''.pdf'' \<and> stem \<noteq> [] \<and> \<not> ends_with_line_terminator stem"
    by blast
next
  assume "\<exists>stem. m = stem @ ''.pdf'' \<and> stem \<noteq> [] \<and> \<not> ends_with_line_terminator stem"
  then obtain stem where S: "m = stem @ ''.pdf''" "stem \<noteq> []"
    "\<not> ends_with_line_terminator stem"
    by blast
  from S(2) have "1 \<le> length stem" by (cases stem) simp_all
  with S show "pdf_match m" by (simp add: pdf_match_def)
qed

section \<open>The claims about the scheduler\<close>

text \<open>
  C1 (concurrency cap), as the code has it. In every state that a run reaches (the first
  \<open>startNext\<close> of \<open>scrape\<close> followed by any sequence of completions of pending actions),
  the tasks whose \<open>started\<close> flag is set and that have not completed are exactly the
  pending actions and \<open>runningRequests\<close> is their number. When the cap \<open>maxRequests\<close> is
  a non-negative integer, that number never exceeds it; for any finite cap it never
  exceeds the cap rounded up (and is 0 for a negative cap); with the cap \<open>-Infinity\<close>
  nothing is started; with the cap \<open>NaN\<close> or \<open>Infinity\<close> every task is started at once.
  In general a task is in flight only if the test
  \<open>runningRequests >= maxRequests\<close> was false with one task less. For every cap, a
  \<open>startNext\<close> entered with \<open>runningRequests >= maxRequests\<close> calls no action and sets no
  \<open>started\<close> flag.
\<close>

theorem concurrency_cap:
  assumes "run (scrape_links nd directory skipExisting links (scrapeInit s0)) es = Some s"
  shows "(maxRequests s0 = Finite (of_int n) \<and> 0 \<le> n \<longrightarrow> int (card (pending_tasks s)) \<le> n) \<and>
         (maxRequests s0 = Finite q \<longrightarrow> int (card (pending_tasks s)) \<le> max 0 \<lceil>q\<rceil>) \<and>
         (maxRequests s0 = NegInfinity \<longrightarrow> pending_tasks s = {}) \<and>
         (maxRequests s0 = NaN \<or> maxRequests s0 = PosInfinity \<longrightarrow>
            (\<forall>j < length (requestsList s). started (requestsList s ! j))) \<and>
         (card (pending_tasks s) = 0 \<or>
          \<not> ge_number (int (card (pending_tasks s)) - 1) (maxRequests s0)) \<and>
         pending_tasks s = set (inflight s) \<and>
         runningRequests s = int (card (pending_tasks s)) \<and>
         maxRequests s = maxRequests s0 \<and>
         (ge_number (runningRequests t) (maxRequests t) \<longrightarrow>
            launched (startNext t) = launched t \<and> requestsList (startNext t) = requestsList t)"
proof -
  from run_inv_run [OF scrape_links_inv assms] have I: "sched_inv s"
    and Sat: "ge_number (runningRequests s) (maxRequests s) \<or>
      (\<forall>j < length (requestsList s). started (requestsList s ! j))"
    by (simp_all add: run_inv_def)
  have P: "pending_tasks s = set (inflight s)" by (rule pending_tasks_inflight [OF I])
  from I have d: "distinct (inflight s)" and R: "runningRequests s = int (length (inflight s))"
    by (simp_all add: sched_inv_def)
  from I have M: "runningRequests s = 0 \<or> \<not> ge_number (runningRequests s - 1) (maxRequests s)"
    unfolding sched_inv_def by blast
  from d have c: "card (pending_tasks s) = length (inflight s)"
    unfolding P by (rule distinct_card)
  with R have RC: "runningRequests s = int (card (pending_tasks s))" by simp
  have E: "maxRequests s = maxRequests s0"
    using run_maxRequests [OF assms] by (simp add: scrape_links_maxRequests)
  from M RC E have G: "card (pending_tasks s) = 0 \<or>
      \<not> ge_number (int (card (pending_tasks s)) - 1) (maxRequests s0)"
    by simp
  have F: "maxRequests s0 = Finite q \<longrightarrow> int (card (pending_tasks s)) \<le> max 0 \<lceil>q\<rceil>" for q
  proof
    assume Q: "maxRequests s0 = Finite q"
    show "int (card (pending_tasks s)) \<le> max 0 \<lceil>q\<rceil>"
    proof (cases "card (pending_tasks s) = 0")
      case True
      then show ?thesis by simp
    next
      case False
      with G Q have "of_int (int (card (pending_tasks s)) - 1) < q" by simp
      then have "int (card (pending_tasks s)) - 1 < \<lceil>q\<rceil>" by (simp only: less_ceiling_iff)
      then show ?thesis by simp
    qed
  qed
  have N: "maxRequests s0 = Finite (of_int n) \<and> 0 \<le> n \<longrightarrow> int (card (pending_tasks s)) \<le> n"
  proof
    assume A: "maxRequests s0 = Finite (of_int n) \<and> 0 \<le> n"
    with F [of "of_int n"] show "int (card (pending_tasks s)) \<le> n" by simp
  qed
  have NI: "maxRequests s0 = NegInfinity \<longrightarrow> pending_tasks s = {}"
  proof
    assume "maxRequests s0 = NegInfinity"
    with G have "card (pending_tasks s) = 0" by simp
    moreover have "finite (pending_tasks s)" unfolding P by simp
    ultimately show "pending_tasks s = {}" by simp
  qed
  have B: "ge_number (runningRequests t) (maxRequests t) \<longrightarrow>
           launched (startNext t) = launched t \<and> requestsList (startNext t) = requestsList t"
  proof
    assume B: "ge_number (runningRequests t) (maxRequests t)"
    obtain b t' where X: "startNext_from 0 t = (b, t')" by (cases "startNext_from 0 t")
    with startNext_from_blocked [OF B, of 0] have "t' = t" by simp
    with X show "launched (startNext t) = launched t \<and>
        requestsList (startNext t) = requestsList t"
      by (cases b)
         (simp_all add: startNext_def allRequestsCompleted_call_def split: callback.splits)
  qed
  have U: "maxRequests s0 = NaN \<or> maxRequests s0 = PosInfinity \<longrightarrow>
      (\<forall>j < length (requestsList s). started (requestsList s ! j))"
  proof
    assume "maxRequests s0 = NaN \<or> maxRequests s0 = PosInfinity"
    with E have "\<not> ge_number (runningRequests s) (maxRequests s)" by auto
    with Sat show "\<forall>j < length (requestsList s). started (requestsList s ! j)" by blast
  qed
  from N F [of q] NI U G P RC E B show ?thesis by blast
qed

theorem concurrency_cap_witness:
  "\<exists>s. run (scrape_links node0 ''/data'' True links0 (scrapeInit scraper0))
          [(0, True), (2, False)] = Some s \<and>
       int (card (pending_tasks s)) \<le> 2 \<and> inflight s = [1]"
proof -
  have "run (scrape_links node0 ''/data'' True links0 (scrapeInit scraper0))
          [(0, True), (2, False)] \<noteq> None \<and>
        map_option inflight (run (scrape_links node0 ''/data'' True links0 (scrapeInit scraper0))
          [(0, True), (2, False)]) = Some [1]"
    by code_simp
  then obtain s where
    R: "run (scrape_links node0 ''/data'' True links0 (scrapeInit scraper0))
          [(0, True), (2, False)] = Some s" and F: "inflight s = [1]"
    by auto
  have C: "maxRequests scraper0 = Finite (of_int 2) \<and> (0::int) \<le> 2"
    by (simp add: scraper0_def)
  from concurrency_cap [OF R, of 2] C
  have "int (card (pending_tasks s)) \<le> 2" by blast
  with R F show ?thesis by blast
qed

text \<open>
  C1, counterexample. The claim as stated fails for a cap that is not an integer: with
  \<open>maxRequests = 2.5\<close> and five tasks, the first \<open>startNext\<close> starts three of them (the test
  \<open>2 >= 2.5\<close> is false), none has completed, and 3 exceeds 2.5.
\<close>

theorem concurrency_cap_counterexample:
  "map started (requestsList
     (scrape_links node0 ''/data'' False links5
        (scrapeInit (scraper0\<lparr>maxRequests := Finite (5 / 2)\<rparr>)))) =
     [True, True, True, False, False] \<and>
   finished (scrape_links node0 ''/data'' False links5
        (scrapeInit (scraper0\<lparr>maxRequests := Finite (5 / 2)\<rparr>))) = [] \<and>
   inflight (scrape_links node0 ''/data'' False links5
        (scrapeInit (scraper0\<lparr>maxRequests := Finite (5 / 2)\<rparr>))) = [0, 1, 2] \<and>
   (5 / 2 :: rat) < 3"
  by code_simp

text \<open>
  C2 (completion coverage). In every state that a run reaches, the promise awaited by
  \<open>scrape\<close> is resolved if and only if every enrolled task occurs exactly once in the
  list of completions; no task ever occurs there twice; the completions are those of the
  run, whatever their outcomes; \<open>resolve\<close> has been called once when
  \<open>completedRequests\<close> equals the length of \<open>requestsList\<close> and not at all before.
  With a cap that 0 does not reach (\<open>0 >= maxRequests\<close> is false: for an integer cap, a
  cap of at least 1) an unresolved run always has a pending action, so it cannot get
  stuck before all tasks have finished.
\<close>

theorem completion_coverage:
  assumes "run (scrape_links nd directory skipExisting links (scrapeInit s0)) es = Some s"
  shows "(scrape_result s \<noteq> None \<longleftrightarrow>
            (\<forall>i < length (requestsList s). count_list (finished s) i = 1)) \<and>
         (\<forall>i. count_list (finished s) i \<le> 1) \<and>
         finished s = map fst es \<and>
         completedRequests s = int (length es) \<and>
         resolves s = (if completedRequests s = int (length (requestsList s)) then 1 else 0) \<and>
         (\<not> ge_number 0 (maxRequests s0) \<and> scrape_result s = None \<longrightarrow> inflight s \<noteq> [])"
proof -
  let ?s1 = "scrape_links nd directory skipExisting links (scrapeInit s0)"
  from run_inv_run [OF scrape_links_inv assms] have RI: "run_inv s" .
  then have I: "sched_inv s"
    and rs: "resolves s = (if length (finished s) = length (requestsList s) then 1 else 0)"
    by (simp_all add: run_inv_def)
  from I have C: "completedRequests s = int (length (finished s))"
    and d: "distinct (finished s)"
    by (simp_all add: sched_inv_def)
  have "finished ?s1 = []"
    by (simp add: scrape_links_def startNext_frame enroll_frame) (simp add: scrapeInit_def)
  with run_frame [OF assms] have F: "finished s = map fst es" by simp
  have res: "scrape_result s \<noteq> None \<longleftrightarrow> length (finished s) = length (requestsList s)"
    using rs by (simp add: scrape_result_def)
  have M: "maxRequests s = maxRequests s0"
    using run_maxRequests [OF assms] by (simp add: scrape_links_maxRequests)
  have live: "\<not> ge_number 0 (maxRequests s0) \<and> scrape_result s = None \<longrightarrow> inflight s \<noteq> []"
  proof
    assume A: "\<not> ge_number 0 (maxRequests s0) \<and> scrape_result s = None"
    with res have "length (finished s) \<noteq> length (requestsList s)" by simp
    with unresolved_pending [OF RI] A M show "inflight s \<noteq> []" by simp
  qed
  have once: "\<forall>i. count_list (finished s) i \<le> 1"
    using d by (simp add: distinct_count_list)
  have "completedRequests s = int (length es)" using C F by simp
  moreover have "resolves s =
      (if completedRequests s = int (length (requestsList s)) then 1 else 0)"
    using rs C by simp
  ultimately show ?thesis
    using res once_iff_all [OF I] once F live by simp
qed

theorem completion_coverage_witness:
  "\<exists>s. run (scrape_links node0 ''/data'' True links0 (scrapeInit scraper0))
          [(1, False), (0, True), (2, True)] = Some s \<and>
       scrape_result s = Some [''/data/2020-01/a.pdf'', ''/data/2020-03/c.epub''] \<and>
       (\<forall>i < length (requestsList s). count_list (finished s) i = 1) \<and>
       finished s = [1, 0, 2] \<and> resolves s = 1"
proof -
  let ?r = "run (scrape_links node0 ''/data'' True links0 (scrapeInit scraper0))
          [(1, False), (0, True), (2, True)]"
  have "?r \<noteq> None \<and>
        map_option scrape_result ?r =
          Some (Some [''/data/2020-01/a.pdf'', ''/data/2020-03/c.epub'']) \<and>
        map_option resolves ?r = Some 1"
    by code_simp
  then obtain s where R: "?r = Some s"
    and S: "scrape_result s = Some [''/data/2020-01/a.pdf'', ''/data/2020-03/c.epub'']"
    and N: "resolves s = 1"
    by auto
  from completion_coverage [OF R]
  have A: "scrape_result s \<noteq> None \<longleftrightarrow>
            (\<forall>i < length (requestsList s). count_list (finished s) i = 1)"
    and B: "finished s = map fst [(1, False), (0, True), (2::nat, True)]"
    by blast+
  from A S have "\<forall>i < length (requestsList s). count_list (finished s) i = 1" by simp
  moreover from B have "finished s = [1, 0, 2]" by simp
  ultimately show ?thesis using R S N by blast
qed

text \<open>
  C3 (no double dispatch). In every state that a run reaches, no position occurs twice in
  the list of \<open>scrape()\<close> calls made since the run began, a task has completed only if it
  was called, the \<open>started\<close> flag of a task is set exactly when its action has been
  called, and only enrolled tasks are called. The list of calls only grows along a run,
  so a task that was called or has completed is never called again. Once the run is
  resolved, every enrolled task has been called exactly once and has completed exactly
  once.
\<close>

theorem no_double_dispatch:
  assumes "run (scrape_links nd directory skipExisting links (scrapeInit s0)) es = Some s"
  shows "(\<forall>i. count_list (launched s) i \<le> 1) \<and>
         (\<forall>i. count_list (finished s) i \<le> count_list (launched s) i) \<and>
         (\<forall>i < length (requestsList s). started (requestsList s ! i) \<longleftrightarrow> i \<in> set (launched s)) \<and>
         set (launched s) \<subseteq> {..<length (requestsList s)} \<and>
         (run s es' = Some s' \<longrightarrow> (\<exists>xs. launched s' = launched s @ xs)) \<and>
         (scrape_result s \<noteq> None \<longrightarrow>
            (\<forall>i < length (requestsList s).
               count_list (launched s) i = 1 \<and> count_list (finished s) i = 1))"
proof -
  from run_inv_run [OF scrape_links_inv assms] have RI: "run_inv s" .
  then have I: "sched_inv s"
    and rs: "resolves s = (if length (finished s) = length (requestsList s) then 1 else 0)"
    by (simp_all add: run_inv_def)
  from I have dl: "distinct (launched s)" and df: "distinct (finished s)"
    and L: "set (launched s) =
      {i. i < length (requestsList s) \<and> started (requestsList s ! i)}"
    and U: "set (inflight s) \<union> set (finished s) = set (launched s)"
    by (simp_all add: sched_inv_def)
  from U have sub: "\<And>i. i \<in> set (finished s) \<Longrightarrow> i \<in> set (launched s)" by blast
  have 1: "\<forall>i. count_list (launched s) i \<le> 1"
    using dl by (simp add: distinct_count_list)
  have 2: "\<forall>i. count_list (finished s) i \<le> count_list (launched s) i"
    using dl df sub by (simp add: distinct_count_list)
  have 3: "\<forall>i < length (requestsList s).
      started (requestsList s ! i) \<longleftrightarrow> i \<in> set (launched s)"
    unfolding L by simp
  have 4: "set (launched s) \<subseteq> {..<length (requestsList s)}"
    unfolding L by auto
  have 5: "run s es' = Some s' \<longrightarrow> (\<exists>xs. launched s' = launched s @ xs)"
    using run_launched [of s es' s'] by blast
  have 6: "scrape_result s \<noteq> None \<longrightarrow>
            (\<forall>i < length (requestsList s).
               count_list (launched s) i = 1 \<and> count_list (finished s) i = 1)"
  proof
    assume "scrape_result s \<noteq> None"
    with rs have E: "length (finished s) = length (requestsList s)"
      by (simp add: scrape_result_def split: if_splits)
    show "\<forall>i < length (requestsList s).
               count_list (launched s) i = 1 \<and> count_list (finished s) i = 1"
    proof (intro allI impI)
      fix i assume "i < length (requestsList s)"
      then have "i \<in> set (finished s)" by (simp only: all_finished [OF I E] lessThan_iff)
      with sub [of i] dl df
      show "count_list (launched s) i = 1 \<and> count_list (finished s) i = 1"
        by (simp add: distinct_count_list)
    qed
  qed
  from 1 2 3 4 5 6 show ?thesis by blast
qed

theorem no_double_dispatch_witness:
  "\<exists>s. run (scrape_links node0 ''/data'' False links5 (scrapeInit scraper0))
          [(1, True), (0, True), (3, False), (2, True), (4, True)] = Some s \<and>
       launched s = [0, 1, 2, 3, 4] \<and>
       (\<forall>i < length (requestsList s).
          count_list (launched s) i = 1 \<and> count_list (finished s) i = 1)"
proof -
  let ?r = "run (scrape_links node0 ''/data'' False links5 (scrapeInit scraper0))
          [(1, True), (0, True), (3, False), (2, True), (4, True)]"
  have "?r \<noteq> None \<and> map_option launched ?r = Some [0, 1, 2, 3, 4] \<and>
        map_option resolves ?r = Some 1"
    by code_simp
  then obtain s where R: "?r = Some s" and L: "launched s = [0, 1, 2, 3, 4]"
    and N: "resolves s = 1"
    by auto
  from N have "scrape_result s \<noteq> None" by (simp add: scrape_result_def)
  with no_double_dispatch [OF R, of "[]" s]
  have "\<forall>i < length (requestsList s).
          count_list (launched s) i = 1 \<and> count_list (finished s) i = 1"
    by blast
  with R L show ?thesis by blast
qed

text \<open>
  C4 (failure containment), as the code has it. In every state that a run reaches,
  \<open>newMagazines\<close> holds the destinations of exactly the completions that succeeded, one
  entry for each, in completion order, and \<open>completedRequests\<close> counts all completions;
  \<open>resolve\<close> is called at most once, and the promise is resolved exactly when as many
  completions as enrolled tasks have happened. A failed task adds no entry: a path is in
  \<open>newMagazines\<close> exactly when some task with that destination succeeded, so the
  destination of a failed task is absent whenever the enrolled destinations are
  distinct. When a pending action fails, the \<open>catch\<close> and \<open>finally\<close> blocks leave
  \<open>newMagazines\<close> as it was, decrement \<open>runningRequests\<close> and increment
  \<open>completedRequests\<close>, and after the \<open>startNext\<close> that follows every other pending action
  is still pending.
\<close>

theorem failure_containment:
  assumes "run (scrape_links nd directory skipExisting links (scrapeInit s0)) es = Some s"
  shows "newMagazines s = map (\<lambda>e. dest (scrape (requestsList s ! fst e))) (filter snd es) \<and>
         completedRequests s = int (length es) \<and>
         resolves s \<le> 1 \<and>
         (scrape_result s \<noteq> None \<longleftrightarrow> length es = length (requestsList s)) \<and>
         (p \<in> set (newMagazines s) \<longleftrightarrow>
            (\<exists>j. (j, True) \<in> set es \<and> dest (scrape (requestsList s ! j)) = p)) \<and>
         ((k, False) \<in> set es \<and> distinct (map (\<lambda>r. dest (scrape r)) (requestsList s)) \<longrightarrow>
            dest (scrape (requestsList s ! k)) \<notin> set (newMagazines s)) \<and>
         (i \<in> set (inflight s) \<longrightarrow>
            newMagazines (settle i False s) = newMagazines s \<and>
            runningRequests (settle i False s) = runningRequests s - 1 \<and>
            completedRequests (settle i False s) = completedRequests s + 1 \<and>
            newMagazines (finish i False s) = newMagazines s \<and>
            completedRequests (finish i False s) = completedRequests s + 1 \<and>
            set (inflight s) - {i} \<subseteq> set (inflight (finish i False s)) \<and>
            run s [(i, False)] = Some (finish i False s))"
proof -
  let ?s1 = "scrape_links nd directory skipExisting links (scrapeInit s0)"
  from run_inv_run [OF scrape_links_inv assms] have RI: "run_inv s" .
  then have I: "sched_inv s"
    and rs: "resolves s = (if length (finished s) = length (requestsList s) then 1 else 0)"
    by (simp_all add: run_inv_def)
  from I have C: "completedRequests s = int (length (finished s))"
    by (simp add: sched_inv_def)
  have init: "finished ?s1 = []" "newMagazines ?s1 = []"
    by (simp_all add: scrape_links_def startNext_frame enroll_frame)
       (simp_all add: scrapeInit_def)
  from run_frame [OF assms] init
  have F: "finished s = map fst es"
    and MS: "map scrape (requestsList ?s1) = map scrape (requestsList s)"
    by simp_all
  have "newMagazines s =
      map (\<lambda>e. dest (map scrape (requestsList s) ! fst e)) (filter snd es)"
    using run_newMagazines [OF scrape_links_inv assms] init MS by simp
  also have "\<dots> = map (\<lambda>e. dest (scrape (requestsList s ! fst e))) (filter snd es)"
  proof (rule map_cong [OF refl])
    fix e assume "e \<in> set (filter snd es)"
    then have "fst e \<in> set (finished s)" unfolding F by auto
    with finished_subset [OF I] have "fst e < length (requestsList s)" by auto
    then show "dest (map scrape (requestsList s) ! fst e) =
        dest (scrape (requestsList s ! fst e))"
      by simp
  qed
  finally have 1: "newMagazines s =
      map (\<lambda>e. dest (scrape (requestsList s ! fst e))) (filter snd es)" .
  have 2: "completedRequests s = int (length es)" using C F by simp
  have 3: "resolves s \<le> 1" using rs by simp
  have 4: "scrape_result s \<noteq> None \<longleftrightarrow> length es = length (requestsList s)"
    using rs F by (simp add: scrape_result_def)
  have 5: "i \<in> set (inflight s) \<longrightarrow>
            newMagazines (settle i False s) = newMagazines s \<and>
            runningRequests (settle i False s) = runningRequests s - 1 \<and>
            completedRequests (settle i False s) = completedRequests s + 1 \<and>
            newMagazines (finish i False s) = newMagazines s \<and>
            completedRequests (finish i False s) = completedRequests s + 1 \<and>
            set (inflight s) - {i} \<subseteq> set (inflight (finish i False s)) \<and>
            run s [(i, False)] = Some (finish i False s)"
  proof
    assume P: "i \<in> set (inflight s)"
    from startNext_appends [of "settle i False s"] obtain xs where
      X: "inflight (finish i False s) = remove1 i (inflight s) @ xs"
      by (auto simp: finish_def settle_def)
    have "set (inflight s) - {i} \<subseteq> set (remove1 i (inflight s))"
      by (auto simp: set_remove1_eq dest: in_set_remove1)
    then have "set (inflight s) - {i} \<subseteq> set (inflight (finish i False s))"
      unfolding X by auto
    with P finish_frame [of i False s]
    show "newMagazines (settle i False s) = newMagazines s \<and>
            runningRequests (settle i False s) = runningRequests s - 1 \<and>
            completedRequests (settle i False s) = completedRequests s + 1 \<and>
            newMagazines (finish i False s) = newMagazines s \<and>
            completedRequests (finish i False s) = completedRequests s + 1 \<and>
            set (inflight s) - {i} \<subseteq> set (inflight (finish i False s)) \<and>
            run s [(i, False)] = Some (finish i False s)"
      by (simp add: settle_def)
  qed
  have 6: "q \<in> set (newMagazines s) \<longleftrightarrow>
      (\<exists>j. (j, True) \<in> set es \<and> dest (scrape (requestsList s ! j)) = q)" for q
    unfolding 1 by force
  from I have df: "distinct (finished s)" by (simp add: sched_inv_def)
  have 7: "(k, False) \<in> set es \<and> distinct (map (\<lambda>r. dest (scrape r)) (requestsList s)) \<longrightarrow>
      dest (scrape (requestsList s ! k)) \<notin> set (newMagazines s)"
  proof (intro impI notI)
    assume A: "(k, False) \<in> set es \<and> distinct (map (\<lambda>r. dest (scrape r)) (requestsList s))"
      and B: "dest (scrape (requestsList s ! k)) \<in> set (newMagazines s)"
    from B 6 obtain j where J: "(j, True) \<in> set es"
      "dest (scrape (requestsList s ! j)) = dest (scrape (requestsList s ! k))"
      by blast
    have bound: "\<And>e. e \<in> set es \<Longrightarrow> fst e < length (requestsList s)"
    proof -
      fix e assume "e \<in> set es"
      then have "fst e \<in> set (finished s)" unfolding F by simp
      with finished_subset [OF I] show "fst e < length (requestsList s)" by auto
    qed
    from bound [OF J(1)] have jb: "j < length (requestsList s)" by simp
    from A bound [of "(k, False)"] have kb: "k < length (requestsList s)" by simp
    from A have D: "distinct (map (\<lambda>r. dest (scrape r)) (requestsList s))" by simp
    from jb have jl: "j < length (map (\<lambda>r. dest (scrape r)) (requestsList s))" by simp
    from kb have kl: "k < length (map (\<lambda>r. dest (scrape r)) (requestsList s))" by simp
    from jb kb J(2)
    have eq: "map (\<lambda>r. dest (scrape r)) (requestsList s) ! j =
        map (\<lambda>r. dest (scrape r)) (requestsList s) ! k"
      by simp
    from nth_eq_iff_index_eq [OF D jl kl] eq have "j = k" by blast
    from df have "inj_on fst (set es)" unfolding F by (simp add: distinct_map)
    then have "(k, True) = (k, False)"
    proof (rule inj_onD)
      show "fst (k, True) = fst (k, False)" by simp
      show "(k, True) \<in> set es" using J(1) \<open>j = k\<close> by simp
      show "(k, False) \<in> set es" using A by simp
    qed
    then show False by simp
  qed
  from 1 2 3 4 5 6 [of p] 7 show ?thesis by blast
qed

theorem failure_containment_witness:
  "\<exists>s. run (scrape_links node0 ''/data'' True links5 (scrapeInit scraper0))
          [(0, True), (1, True), (2, False), (3, True), (4, True)] = Some s \<and>
       scrape_result s = Some [''/data/i1/1.pdf'', ''/data/i2/2.pdf'',
                               ''/data/i4/4.pdf'', ''/data/i5/5.pdf''] \<and>
       ''/data/i3/3.pdf'' \<notin> set (newMagazines s) \<and>
       resolves s = 1 \<and> completedRequests s = 5 \<and> runningRequests s = 0"
proof -
  let ?es = "[(0::nat, True), (1, True), (2, False), (3, True), (4, True)]"
  let ?r = "run (scrape_links node0 ''/data'' True links5 (scrapeInit scraper0)) ?es"
  have "?r \<noteq> None \<and>
        map_option scrape_result ?r =
          Some (Some [''/data/i1/1.pdf'', ''/data/i2/2.pdf'',
                      ''/data/i4/4.pdf'', ''/data/i5/5.pdf'']) \<and>
        map_option resolves ?r = Some 1 \<and> map_option runningRequests ?r = Some 0 \<and>
        map_option (\<lambda>s. map (\<lambda>r. dest (scrape r)) (requestsList s)) ?r =
          Some [''/data/i1/1.pdf'', ''/data/i2/2.pdf'', ''/data/i3/3.pdf'',
                ''/data/i4/4.pdf'', ''/data/i5/5.pdf'']"
    by code_simp
  then obtain s where R: "?r = Some s"
    and S: "scrape_result s = Some [''/data/i1/1.pdf'', ''/data/i2/2.pdf'',
                               ''/data/i4/4.pdf'', ''/data/i5/5.pdf'']"
    and N: "resolves s = 1" and Z: "runningRequests s = 0"
    and D: "map (\<lambda>r. dest (scrape r)) (requestsList s) =
          [''/data/i1/1.pdf'', ''/data/i2/2.pdf'', ''/data/i3/3.pdf'',
           ''/data/i4/4.pdf'', ''/data/i5/5.pdf'']"
    by auto
  note T = failure_containment [OF R, where k = 2]
  from T have "completedRequests s = int (length ?es)" by blast
  then have C: "completedRequests s = 5" by simp
  have dist: "distinct (map (\<lambda>r. dest (scrape r)) (requestsList s))" unfolding D by simp
  have ev: "(2, False) \<in> set ?es" by simp
  from T dist ev have "dest (scrape (requestsList s ! 2)) \<notin> set (newMagazines s)" by blast
  moreover have "dest (scrape (requestsList s ! 2)) = ''/data/i3/3.pdf''"
  proof -
    have "length (map (\<lambda>r. dest (scrape r)) (requestsList s)) = 5" unfolding D by simp
    then have len: "2 < length (requestsList s)" by simp
    have "map (\<lambda>r. dest (scrape r)) (requestsList s) ! 2 = ''/data/i3/3.pdf''"
      unfolding D by simp
    with len show ?thesis by simp
  qed
  ultimately have "''/data/i3/3.pdf'' \<notin> set (newMagazines s)" by simp
  with R S N Z C show ?thesis by blast
qed

text \<open>
  C4, counterexample. The claim as stated fails when two tasks have the same destination
  (the page lists the same file twice): the first fails, the second succeeds, and the
  destination of the failed task is in the result.
\<close>

theorem failure_containment_counterexample:
  "(case scraper_scrape (node0\<lparr>getMyMagazinesDom := Inr page_twice\<rparr>) ''/data'' True scraper0 of
      Inl e \<Rightarrow> False
    | Inr s1 \<Rightarrow>
        map (\<lambda>r. dest (scrape r)) (requestsList s1) =
          [''/data/2020-01/2020-01.pdf'', ''/data/2020-01/2020-01.pdf''] \<and>
        map_option scrape_result (run s1 [(0, False), (1, True)]) =
          Some (Some [''/data/2020-01/2020-01.pdf'']))"
  by code_simp

text \<open>
  C5 (empty batch). When the enrolment loop of \<open>scrape\<close> leaves \<open>requestsList\<close> empty (no
  link was discovered, or every destination exists and is skipped), the first
  \<open>startNext\<close> calls \<open>resolve\<close>: the promise is resolved with the empty list before any
  completion, no action has been called and none is pending. This holds for every value
  of the cap.
\<close>

theorem empty_batch:
  assumes "requestsList (enroll nd directory skipExisting links (scrapeInit s0)) = []"
  shows "scrape_result (scrape_links nd directory skipExisting links (scrapeInit s0)) = Some [] \<and>
         resolves (scrape_links nd directory skipExisting links (scrapeInit s0)) = 1 \<and>
         launched (scrape_links nd directory skipExisting links (scrapeInit s0)) = [] \<and>
         inflight (scrape_links nd directory skipExisting links (scrapeInit s0)) = []"
proof -
  define s1 where
    "s1 = (enroll nd directory skipExisting links (scrapeInit s0))\<lparr>allRequestsCompleted := Resolve\<rparr>"
  have L: "requestsList s1 = []" using assms by (simp add: s1_def)
  have Z: "completedRequests s1 = 0" "resolves s1 = 0" "newMagazines s1 = []"
    "launched s1 = []" "inflight s1 = []" "allRequestsCompleted s1 = Resolve"
    by (simp_all add: s1_def enroll_frame) (simp_all add: scrapeInit_def)
  have E: "startNext_from 0 s1 = (False, s1)"
    using L by (simp add: startNext_from.simps [of 0 s1])
  have "startNext s1 = s1\<lparr>resolves := 1\<rparr>"
    using E L Z by (simp add: startNext_def allRequestsCompleted_call_def)
  then show ?thesis
    using Z unfolding scrape_links_def s1_def [symmetric]
    by (simp add: scrape_result_def)
qed

theorem empty_batch_witness:
  "requestsList (enroll node0 ''/data'' True
      [\<lparr>link_id = ''2020-02'', url = ''https://example.com/issue/b.pdf'', filename = ''b.pdf''\<rparr>]
      (scrapeInit scraper0)) = [] \<and>
   scrape_result (scrape_links node0 ''/data'' True
      [\<lparr>link_id = ''2020-02'', url = ''https://example.com/issue/b.pdf'', filename = ''b.pdf''\<rparr>]
      (scrapeInit scraper0)) = Some []"
proof -
  have H: "requestsList (enroll node0 ''/data'' True
      [\<lparr>link_id = ''2020-02'', url = ''https://example.com/issue/b.pdf'', filename = ''b.pdf''\<rparr>]
      (scrapeInit scraper0)) = []"
    by (simp add: node0_def destination_def magazinefolder_def baseFolder_def scrapeInit_def)
  from empty_batch [OF H] H show ?thesis by blast
qed

section \<open>The claims about link extraction\<close>

text \<open>
  C6 (file name rule), as the code has it. The path of an anchor is the field \<open>path\<close> of
  \<open>url.parse(format.href)\<close>: the path of the URL followed by its query. For every anchor
  that the inner loop of \<open>getLinks\<close> processes: when the path or the href of the parsed
  URL is missing or empty, or \<open>path.extname\<close> of the path is empty, the loop goes on with
  the results unchanged (no link, no error); when the extension is not empty and
  \<open>decodeURI\<close> succeeds on the basename of the path, the link with the section id, the
  href and the decoded basename is appended; when \<open>decodeURI\<close> throws, the exception
  leaves the loop and no result is returned. So whenever \<open>getLinks\<close> returns, every
  anchor with an extension below the first matching element of a section with an id has
  a decodable basename and its link is among the results.
\<close>

theorem link_filename_rule:
  "(url_path (url_parse nd (href format)) = None \<or>
    url_path (url_parse nd (href format)) = Some [] \<or>
    url_href (url_parse nd (href format)) = None \<or>
    url_href (url_parse nd (href format)) = Some [] \<longrightarrow>
      getLinks_formats nd sid (format # formats) results =
        getLinks_formats nd sid formats results) \<and>
   (url_parse nd (href format) = \<lparr>url_path = Some p, url_href = Some h\<rparr> \<and>
    p \<noteq> [] \<and> h \<noteq> [] \<longrightarrow>
      (extname p = [] \<longrightarrow>
         getLinks_formats nd sid (format # formats) results =
           getLinks_formats nd sid formats results) \<and>
      (extname p \<noteq> [] \<longrightarrow>
         (case decodeURI (basename p) of
            Some f \<Rightarrow>
              getLinks_formats nd sid (format # formats) results =
                getLinks_formats nd sid formats
                  (results @ [\<lparr>link_id = sid, url = h, filename = f\<rparr>])
          | None \<Rightarrow>
              getLinks_formats nd sid (format # formats) results = Inl URIError)) \<and>
      (getLinks nd = Inr links \<and> getMyMagazinesDom nd = Inr document \<and>
       section \<in> set (getMagazinesSections document) \<and> elem_id section \<noteq> [] \<and>
       getMagazineLinksTable section = t # ts \<and> format \<in> set (getMagazineLinks t) \<and>
       extname p \<noteq> [] \<longrightarrow>
         (\<exists>f. decodeURI (basename p) = Some f \<and>
              \<lparr>link_id = elem_id section, url = h, filename = f\<rparr> \<in> set links)))"
proof (intro conjI impI)
  assume "url_path (url_parse nd (href format)) = None \<or>
    url_path (url_parse nd (href format)) = Some [] \<or>
    url_href (url_parse nd (href format)) = None \<or>
    url_href (url_parse nd (href format)) = Some []"
  then have "falsy (url_path (url_parse nd (href format))) \<or>
    falsy (url_href (url_parse nd (href format)))"
    by (auto simp: falsy_def)
  then show "getLinks_formats nd sid (format # formats) results =
      getLinks_formats nd sid formats results"
    by (auto simp: getLinks_format_def)
next
  assume "url_parse nd (href format) = \<lparr>url_path = Some p, url_href = Some h\<rparr> \<and>
    p \<noteq> [] \<and> h \<noteq> []" and "extname p = []"
  then show "getLinks_formats nd sid (format # formats) results =
      getLinks_formats nd sid formats results"
    by (simp add: getLinks_format_def falsy_def)
next
  assume "url_parse nd (href format) = \<lparr>url_path = Some p, url_href = Some h\<rparr> \<and>
    p \<noteq> [] \<and> h \<noteq> []" and "extname p \<noteq> []"
  then show "case decodeURI (basename p) of
      Some f \<Rightarrow>
        getLinks_formats nd sid (format # formats) results =
          getLinks_formats nd sid formats (results @ [\<lparr>link_id = sid, url = h, filename = f\<rparr>])
    | None \<Rightarrow> getLinks_formats nd sid (format # formats) results = Inl URIError"
    by (simp add: getLinks_format_def falsy_def split: option.splits)
next
  assume U: "url_parse nd (href format) = \<lparr>url_path = Some p, url_href = Some h\<rparr> \<and>
    p \<noteq> [] \<and> h \<noteq> []"
    and A: "getLinks nd = Inr links \<and> getMyMagazinesDom nd = Inr document \<and>
          section \<in> set (getMagazinesSections document) \<and> elem_id section \<noteq> [] \<and>
          getMagazineLinksTable section = t # ts \<and> format \<in> set (getMagazineLinks t) \<and>
          extname p \<noteq> []"
  then have G: "getLinks_sections nd (getMagazinesSections document) [] = Inr links"
    by (auto simp: getLinks_def)
  note C = getLinks_sections_complete [OF G]
  from C A have N: "\<forall>e. getLinks_format nd (elem_id section) format \<noteq> Inl e" by force
  have F: "getLinks_format nd (elem_id section) format =
      (case decodeURI (basename p) of
         None \<Rightarrow> Inl URIError
       | Some f \<Rightarrow> Inr (Some \<lparr>link_id = elem_id section, url = h, filename = f\<rparr>))"
    using U A by (simp add: getLinks_format_def falsy_def)
  with N obtain f where D: "decodeURI (basename p) = Some f"
    by (cases "decodeURI (basename p)") auto
  with F have "getLinks_format nd (elem_id section) format =
      Inr (Some \<lparr>link_id = elem_id section, url = h, filename = f\<rparr>)"
    by simp
  with A have "link_source nd section \<lparr>link_id = elem_id section, url = h, filename = f\<rparr>"
    by (auto simp: link_source_def list_ex_iff)
  with C A have "\<lparr>link_id = elem_id section, url = h, filename = f\<rparr> \<in> set links" by blast
  with D show "\<exists>f. decodeURI (basename p) = Some f \<and>
      \<lparr>link_id = elem_id section, url = h, filename = f\<rparr> \<in> set links"
    by blast
qed

theorem link_filename_rule_witness:
  "getLinks_formats node0 ''2020-01''
     [anchor [],
      anchor ''https://example.com/issue/2020-01.pdf'',
      anchor ''https://example.com/issue/2020-01''] [] =
   Inr [\<lparr>link_id = ''2020-01'', url = ''https://example.com/issue/2020-01.pdf'',
         filename = ''2020-01.pdf''\<rparr>]"
proof -
  let ?l = "\<lparr>link_id = ''2020-01'', url = ''https://example.com/issue/2020-01.pdf'',
         filename = ''2020-01.pdf''\<rparr>"
  have P0: "url_path (url_parse node0 (href (anchor []))) = None"
    by (simp add: node0_def url_parse0_def anchor_def)
  have P1: "url_parse node0 (href (anchor ''https://example.com/issue/2020-01.pdf'')) =
      \<lparr>url_path = Some ''/issue/2020-01.pdf'',
       url_href = Some ''https://example.com/issue/2020-01.pdf''\<rparr>"
    by (simp add: node0_def url_parse0_def anchor_def)
  have P2: "url_parse node0 (href (anchor ''https://example.com/issue/2020-01'')) =
      \<lparr>url_path = Some ''/issue/2020-01'',
       url_href = Some ''https://example.com/issue/2020-01''\<rparr>"
    by (simp add: node0_def url_parse0_def anchor_def)
  have E1: "extname ''/issue/2020-01.pdf'' = ''.pdf''" by code_simp
  have E2: "extname ''/issue/2020-01'' = []" by code_simp
  have D: "decodeURI (basename ''/issue/2020-01.pdf'') = Some ''2020-01.pdf''" by code_simp
  from link_filename_rule [of node0 "anchor []" "''2020-01''"
      "[anchor ''https://example.com/issue/2020-01.pdf'',
        anchor ''https://example.com/issue/2020-01'']" "[]"] P0
  have S0: "getLinks_formats node0 ''2020-01''
     [anchor [],
      anchor ''https://example.com/issue/2020-01.pdf'',
      anchor ''https://example.com/issue/2020-01''] [] =
     getLinks_formats node0 ''2020-01''
      [anchor ''https://example.com/issue/2020-01.pdf'',
       anchor ''https://example.com/issue/2020-01''] []"
    by blast
  from link_filename_rule [of node0 "anchor ''https://example.com/issue/2020-01.pdf''"
      "''2020-01''" "[anchor ''https://example.com/issue/2020-01'']" "[]"
      "''/issue/2020-01.pdf''" "''https://example.com/issue/2020-01.pdf''"] P1 E1
  have "case decodeURI (basename ''/issue/2020-01.pdf'') of
      Some f \<Rightarrow>
        getLinks_formats node0 ''2020-01''
          [anchor ''https://example.com/issue/2020-01.pdf'',
           anchor ''https://example.com/issue/2020-01''] [] =
        getLinks_formats node0 ''2020-01'' [anchor ''https://example.com/issue/2020-01'']
          ([] @ [\<lparr>link_id = ''2020-01'', url = ''https://example.com/issue/2020-01.pdf'',
                  filename = f\<rparr>])
    | None \<Rightarrow>
        getLinks_formats node0 ''2020-01''
          [anchor ''https://example.com/issue/2020-01.pdf'',
           anchor ''https://example.com/issue/2020-01''] [] = Inl URIError"
    by simp
  then have S1: "getLinks_formats node0 ''2020-01''
     [anchor ''https://example.com/issue/2020-01.pdf'',
      anchor ''https://example.com/issue/2020-01''] [] =
     getLinks_formats node0 ''2020-01'' [anchor ''https://example.com/issue/2020-01''] [?l]"
    unfolding D by simp
  from link_filename_rule [of node0 "anchor ''https://example.com/issue/2020-01''"
      "''2020-01''" "[]" "[?l]" "''/issue/2020-01''" "''https://example.com/issue/2020-01''"]
    P2 E2
  have S2: "getLinks_formats node0 ''2020-01'' [anchor ''https://example.com/issue/2020-01'']
       [?l] = Inr [?l]"
    by simp
  from S0 S1 S2 show ?thesis by simp
qed

text \<open>
  C6, counterexample. The claim as stated fails in two ways. An anchor whose path has an
  extension and whose basename is not a well-formed escape sequence, here \<open>caf%E9.pdf\<close>
  (a Latin-1 escape): the extension is \<open>.pdf\<close>, \<open>decodeURI\<close> throws, and \<open>getLinks\<close>
  returns no link at all, not even the one of the anchor before it. And an anchor whose
  URL has a query: the extension and the basename are taken from the path with the
  query, so \<open>/issue/2020-01?v=1.2\<close>, whose path \<open>/issue/2020-01\<close> has no extension, is not
  skipped, and \<open>/issue/a.pdf?v=1\<close> gets the file name \<open>a.pdf?v=1\<close>, not \<open>a.pdf\<close>.
\<close>

theorem link_filename_rule_counterexample:
  "url_path (url_parse0 ''https://example.com/issue/caf%E9.pdf'') = Some ''/issue/caf%E9.pdf'' \<and>
   extname ''/issue/caf%E9.pdf'' = ''.pdf'' \<and>
   decodeURI (basename ''/issue/caf%E9.pdf'') = None \<and>
   getLinks (node0\<lparr>getMyMagazinesDom := Inr page_latin1\<rparr>) = Inl URIError \<and>
   extname ''/issue/2020-01'' = [] \<and>
   basename ''/issue/a.pdf'' = ''a.pdf'' \<and>
   getLinks (node0\<lparr>getMyMagazinesDom := Inr page_query\<rparr>) =
     Inr [\<lparr>link_id = ''2020-01'', url = ''https://example.com/issue/2020-01?v=1.2'',
           filename = ''2020-01?v=1.2''\<rparr>,
          \<lparr>link_id = ''2020-01'', url = ''https://example.com/issue/a.pdf?v=1'',
           filename = ''a.pdf?v=1''\<rparr>]"
  by code_simp




section \<open>The claim about existing files\<close>

text \<open>
  C7 (existing-file skip). For a discovered link whose destination path is accessible:
  \<open>scrape\<close> with \<open>skipExisting = true\<close> enrols one task for every discovered link whose
  destination is not accessible, in order, and so no task with that destination, and in
  no state that the run reaches has an action with that destination been called; with
  \<open>skipExisting = false\<close> one task is enrolled for every discovered link, in order, this
  one included.
\<close>

theorem existing_file_skip:
  assumes G: "getLinks nd = Inr links" and L: "l \<in> set links"
    and X: "fs_access nd (destination nd directory l)"
  shows "(\<exists>s1. scraper_scrape nd directory True s0 = Inr s1 \<and>
            map scrape (requestsList s1) =
              map (\<lambda>l. scraperFactory (url l) (magazinefolder nd directory l)
                         (destination nd directory l))
                (filter (\<lambda>l. \<not> fs_access nd (destination nd directory l)) links) \<and>
            (\<forall>r \<in> set (requestsList s1). dest (scrape r) \<noteq> destination nd directory l) \<and>
            (\<forall>es s. run s1 es = Some s \<longrightarrow>
               (\<forall>i \<in> set (launched s).
                  dest (scrape (requestsList s ! i)) \<noteq> destination nd directory l))) \<and>
         (\<exists>s1. scraper_scrape nd directory False s0 = Inr s1 \<and>
            map scrape (requestsList s1) =
              map (\<lambda>l. scraperFactory (url l) (magazinefolder nd directory l)
                         (destination nd directory l)) links \<and>
            scraperFactory (url l) (magazinefolder nd directory l) (destination nd directory l)
              \<in> scrape ` set (requestsList s1))"
proof (intro conjI)
  let ?s1 = "scrape_links nd directory True links (scrapeInit s0)"
  have S: "scraper_scrape nd directory True s0 = Inr ?s1" using G by (simp add: scraper_scrape_def)
  have A: "\<And>a. a \<in> set (map scrape (requestsList ?s1)) \<Longrightarrow> dest a \<noteq> destination nd directory l"
    using X unfolding scrape_links_actions by (auto simp: dest_scraperFactory)
  have 1: "\<forall>r \<in> set (requestsList ?s1). dest (scrape r) \<noteq> destination nd directory l"
    using A by auto
  have 2: "\<forall>es s. run ?s1 es = Some s \<longrightarrow>
      (\<forall>i \<in> set (launched s). dest (scrape (requestsList s ! i)) \<noteq> destination nd directory l)"
  proof (intro allI impI ballI)
    fix es s i
    assume R: "run ?s1 es = Some s" and I: "i \<in> set (launched s)"
    from run_inv_run [OF scrape_links_inv R] have "sched_inv s" by (simp add: run_inv_def)
    then have "set (launched s) =
        {i. i < length (requestsList s) \<and> started (requestsList s ! i)}"
      by (simp add: sched_inv_def)
    with I have B: "i < length (requestsList s)" by simp
    from run_frame [OF R] have M: "map scrape (requestsList s) = map scrape (requestsList ?s1)"
      by simp
    from B have "scrape (requestsList s ! i) \<in> set (map scrape (requestsList s))"
      by (metis length_map nth_map nth_mem)
    with M A show "dest (scrape (requestsList s ! i)) \<noteq> destination nd directory l"
      by simp
  qed
  have 0: "map scrape (requestsList ?s1) =
      map (\<lambda>l. scraperFactory (url l) (magazinefolder nd directory l)
                 (destination nd directory l))
        (filter (\<lambda>l. \<not> fs_access nd (destination nd directory l)) links)"
    unfolding scrape_links_actions by simp
  from S 0 1 2 show "\<exists>s1. scraper_scrape nd directory True s0 = Inr s1 \<and>
            map scrape (requestsList s1) =
              map (\<lambda>l. scraperFactory (url l) (magazinefolder nd directory l)
                         (destination nd directory l))
                (filter (\<lambda>l. \<not> fs_access nd (destination nd directory l)) links) \<and>
            (\<forall>r \<in> set (requestsList s1). dest (scrape r) \<noteq> destination nd directory l) \<and>
            (\<forall>es s. run s1 es = Some s \<longrightarrow>
               (\<forall>i \<in> set (launched s).
                  dest (scrape (requestsList s ! i)) \<noteq> destination nd directory l))"
    by blast
next
  let ?s1 = "scrape_links nd directory False links (scrapeInit s0)"
  have S: "scraper_scrape nd directory False s0 = Inr ?s1" using G by (simp add: scraper_scrape_def)
  have M: "map scrape (requestsList ?s1) =
      map (\<lambda>l. scraperFactory (url l) (magazinefolder nd directory l)
                 (destination nd directory l)) links"
    unfolding scrape_links_actions by simp
  have "scraperFactory (url l) (magazinefolder nd directory l) (destination nd directory l)
      \<in> set (map scrape (requestsList ?s1))"
    unfolding M using L by simp
  then have "scraperFactory (url l) (magazinefolder nd directory l) (destination nd directory l)
      \<in> scrape ` set (requestsList ?s1)"
    by simp
  with S M show "\<exists>s1. scraper_scrape nd directory False s0 = Inr s1 \<and>
            map scrape (requestsList s1) =
              map (\<lambda>l. scraperFactory (url l) (magazinefolder nd directory l)
                         (destination nd directory l)) links \<and>
            scraperFactory (url l) (magazinefolder nd directory l) (destination nd directory l)
              \<in> scrape ` set (requestsList s1)"
    by blast
qed

theorem existing_file_skip_witness:
  "getLinks node1 =
     Inr [\<lparr>link_id = ''2020-01'', url = ''https://example.com/issue/2020-01.pdf'',
           filename = ''2020-01.pdf''\<rparr>] \<and>
   fs_access node1 ''/data/2020-01/2020-01.pdf'' \<and>
   (\<exists>s1. scraper_scrape node1 ''/data'' True scraper0 = Inr s1 \<and>
      list_all (\<lambda>r. dest (scrape r) \<noteq> ''/data/2020-01/2020-01.pdf'') (requestsList s1)) \<and>
   (\<exists>s1. scraper_scrape node1 ''/data'' False scraper0 = Inr s1 \<and>
      map scrape (requestsList s1) =
        [Scraper ''https://example.com/issue/2020-01.pdf'' ''/data/2020-01''
           ''/data/2020-01/2020-01.pdf''])"
proof -
  let ?l = "\<lparr>link_id = ''2020-01'', url = ''https://example.com/issue/2020-01.pdf'',
           filename = ''2020-01.pdf''\<rparr>"
  have G: "getLinks node1 = Inr [?l]" by code_simp
  have L: "?l \<in> set [?l]" by simp
  have D: "destination node1 ''/data'' ?l = ''/data/2020-01/2020-01.pdf''"
    and F: "magazinefolder node1 ''/data'' ?l = ''/data/2020-01''"
    by (simp_all add: destination_def magazinefolder_def baseFolder_def node1_def node0_def)
  have X: "fs_access node1 (destination node1 ''/data'' ?l)"
    unfolding D by (simp add: node1_def)
  note T = existing_file_skip [OF G L X, of scraper0]
  from T obtain s1 where
    "scraper_scrape node1 ''/data'' True scraper0 = Inr s1"
    "\<forall>r \<in> set (requestsList s1). dest (scrape r) \<noteq> destination node1 ''/data'' ?l"
    by blast
  then have 1: "\<exists>s1. scraper_scrape node1 ''/data'' True scraper0 = Inr s1 \<and>
      list_all (\<lambda>r. dest (scrape r) \<noteq> ''/data/2020-01/2020-01.pdf'') (requestsList s1)"
    unfolding D by (auto simp: list_all_iff)
  from T obtain s2 where
    "scraper_scrape node1 ''/data'' False scraper0 = Inr s2"
    "map scrape (requestsList s2) =
       map (\<lambda>l. scraperFactory (url l) (magazinefolder node1 ''/data'' l)
                  (destination node1 ''/data'' l)) [?l]"
    by blast
  then have 2: "\<exists>s1. scraper_scrape node1 ''/data'' False scraper0 = Inr s1 \<and>
      map scrape (requestsList s1) =
        [Scraper ''https://example.com/issue/2020-01.pdf'' ''/data/2020-01''
           ''/data/2020-01/2020-01.pdf'']"
    by (auto simp: D F scraperFactory_def)
  from X have "fs_access node1 ''/data/2020-01/2020-01.pdf''" unfolding D .
  with G 1 2 show ?thesis by blast
qed

section \<open>The claims about the notifier\<close>

text \<open>
  C9 (notifier filtering and order). The calls of \<open>web.files.upload\<close> are always an
  initial part of the list obtained from the input by keeping, in input order, the paths
  that match \<open>/.+\.pdf$/\<close>, one call per kept path with its basename as file name; when
  no call fails they are that whole list and the function returns normally. A path
  matches exactly when it ends with \<open>.pdf\<close> and the character before that exists and is
  not a line terminator.
\<close>

theorem notifier_filtering:
  "((\<forall>k < length (filter pdf_match magazines). ok k) \<longrightarrow>
      uploadNewMagazines ok slackToken slackChannels magazines =
        (map (upload_of slackChannels) (filter pdf_match magazines), None)) \<and>
   (\<exists>n. fst (uploadNewMagazines ok slackToken slackChannels magazines) =
      take n (map (upload_of slackChannels) (filter pdf_match magazines))) \<and>
   (pdf_match m \<longleftrightarrow>
      (\<exists>stem. m = stem @ ''.pdf'' \<and> stem \<noteq> [] \<and> \<not> ends_with_line_terminator stem))"
proof (intro conjI impI)
  assume "\<forall>k < length (filter pdf_match magazines). ok k"
  then have "\<forall>k < length (filter pdf_match magazines). ok (length ([] :: upload list) + k)"
    by simp
  from upload_loop_all [OF this, of slackChannels]
  show "uploadNewMagazines ok slackToken slackChannels magazines =
        (map (upload_of slackChannels) (filter pdf_match magazines), None)"
    by (cases "filter pdf_match magazines = []") (simp_all add: uploadNewMagazines_def)
next
  from upload_loop_prefix [of ok slackChannels "filter pdf_match magazines" "[]"]
  show "\<exists>n. fst (uploadNewMagazines ok slackToken slackChannels magazines) =
      take n (map (upload_of slackChannels) (filter pdf_match magazines))"
    by (cases "filter pdf_match magazines = []") (simp_all add: uploadNewMagazines_def)
next
  show "pdf_match m \<longleftrightarrow>
      (\<exists>stem. m = stem @ ''.pdf'' \<and> stem \<noteq> [] \<and> \<not> ends_with_line_terminator stem)"
    by (rule pdf_match_iff)
qed

theorem notifier_filtering_witness:
  "uploadNewMagazines (\<lambda>k. True) ''token'' ''channel'' [''a.pdf'', ''b.epub'', ''c.pdf''] =
     ([\<lparr>upload_filename = ''a.pdf'', upload_file = ''a.pdf'', upload_channels = ''channel''\<rparr>,
       \<lparr>upload_filename = ''c.pdf'', upload_file = ''c.pdf'', upload_channels = ''channel''\<rparr>],
      None)"
proof -
  have F: "filter pdf_match [''a.pdf'', ''b.epub'', ''c.pdf''] = [''a.pdf'', ''c.pdf'']"
    by code_simp
  have B: "basename ''a.pdf'' = ''a.pdf''" "basename ''c.pdf'' = ''c.pdf''"
    by code_simp+
  from notifier_filtering [of "[''a.pdf'', ''b.epub'', ''c.pdf'']" "\<lambda>k. True"
      "''token''" "''channel''"]
  have "uploadNewMagazines (\<lambda>k. True) ''token'' ''channel'' [''a.pdf'', ''b.epub'', ''c.pdf''] =
      (map (upload_of ''channel'') (filter pdf_match [''a.pdf'', ''b.epub'', ''c.pdf'']), None)"
    by blast
  then show ?thesis unfolding F by (simp add: upload_of_def B)
qed

text \<open>
  C10 (a failing upload). When the call for one of the kept files fails and the calls
  before it succeeded, \<open>uploadNewMagazines\<close> ends with that exception, and the calls made
  are those for the kept files up to and including the failing one: no call is made for
  any kept file after it.
\<close>

theorem notifier_failure:
  assumes "filter pdf_match magazines = pre @ file # post"
    and "\<forall>k < length pre. ok k" and "\<not> ok (length pre)"
  shows "uploadNewMagazines ok slackToken slackChannels magazines =
           (map (upload_of slackChannels) (pre @ [file]), Some UploadError)"
proof -
  from assms(2) have "\<forall>k < length pre. ok (length ([] :: upload list) + k)" by simp
  moreover from assms(3) have "\<not> ok (length ([] :: upload list) + length pre)" by simp
  ultimately have "upload_loop ok slackChannels (pre @ file # post) [] =
      ([] @ map (upload_of slackChannels) (pre @ [file]), Some UploadError)"
    by (rule upload_loop_fail)
  with assms(1) show ?thesis by (simp add: uploadNewMagazines_def)
qed

theorem notifier_failure_witness:
  "uploadNewMagazines (\<lambda>k. k \<noteq> 1) ''token'' ''channel''
      [''d/a.pdf'', ''d/b.epub'', ''d/c.pdf'', ''d/e.pdf''] =
     ([\<lparr>upload_filename = ''a.pdf'', upload_file = ''d/a.pdf'', upload_channels = ''channel''\<rparr>,
       \<lparr>upload_filename = ''c.pdf'', upload_file = ''d/c.pdf'', upload_channels = ''channel''\<rparr>],
      Some UploadError)"
proof -
  have F: "filter pdf_match [''d/a.pdf'', ''d/b.epub'', ''d/c.pdf'', ''d/e.pdf''] =
      [''d/a.pdf''] @ ''d/c.pdf'' # [''d/e.pdf'']"
    by code_simp
  have B: "basename ''d/a.pdf'' = ''a.pdf''" "basename ''d/c.pdf'' = ''c.pdf''"
    by code_simp+
  have O: "\<forall>k < length [''d/a.pdf'']. k \<noteq> 1" "\<not> length [''d/a.pdf''] \<noteq> 1" by simp_all
  from notifier_failure [of "[''d/a.pdf'', ''d/b.epub'', ''d/c.pdf'', ''d/e.pdf'']"
      "[''d/a.pdf'']" "''d/c.pdf''" "[''d/e.pdf'']" "\<lambda>k. k \<noteq> 1", OF F O]
  show ?thesis by (simp add: upload_of_def B)
qed

end
